theory Spec2Isabelle
  imports Complex_Main "HOL-Library.Word" "HOL-Library.Multiset"
begin

section \<open>Machine types and errors\<close>

text \<open>
  Indices are \<open>size_t\<close>: unsigned 64-bit integers whose subtraction and addition wrap.
\<close>

type_synonym size_t = "64 word"

text \<open>
  Every \<open>throw std::runtime_error(msg)\<close> of the sources is the value
  \<open>RuntimeError msg\<close>; \<open>NotImplemented\<close> is the failure of an operation that a
  class declares but does not support.
\<close>

datatype error = RuntimeError string | NotImplemented string

section \<open>Binary searches of the standard library\<close>

text \<open>
  \<open>std::upper_bound\<close> and \<open>std::lower_bound\<close> share one loop: halve the remaining
  length, probe the middle element, and continue right of it when the probe satisfies the
  predicate, left of it otherwise. The probe \<open>xs ! it\<close> is within the list whenever
  \<open>first + len \<le> length xs\<close>, which the two callers below establish.
\<close>

function partition_search :: "('a \<Rightarrow> bool) \<Rightarrow> 'a list \<Rightarrow> nat \<Rightarrow> nat \<Rightarrow> nat" where
  "partition_search goRight xs first len =
     (if 0 < len then
        (if goRight (xs ! (first + len div 2))
         then partition_search goRight xs (first + len div 2 + 1) (len - (len div 2 + 1))
         else partition_search goRight xs first (len div 2))
      else first)"
  by pat_completeness auto
termination
  by (relation "measure (\<lambda>(goRight, xs, first, len). len)") auto

text \<open>\<open>std::upper_bound(begin, end, v, lt)\<close>: go right while \<open>\<not> lt v e\<close>.\<close>

definition upper_bound :: "('a \<Rightarrow> 'a \<Rightarrow> bool) \<Rightarrow> 'a list \<Rightarrow> 'a \<Rightarrow> nat" where
  "upper_bound lt xs v = partition_search (\<lambda>e. \<not> lt v e) xs 0 (length xs)"

text \<open>\<open>std::lower_bound(begin, end, v, lt)\<close>: go right while \<open>lt e v\<close>.\<close>

definition lower_bound :: "('a \<Rightarrow> 'a \<Rightarrow> bool) \<Rightarrow> 'a list \<Rightarrow> 'a \<Rightarrow> nat" where
  "lower_bound lt xs v = partition_search (\<lambda>e. lt e v) xs 0 (length xs)"

text \<open>\<open>container.insert(pos, x)\<close> at an index position.\<close>

definition insert_at :: "nat \<Rightarrow> 'a \<Rightarrow> 'a list \<Rightarrow> 'a list" where
  "insert_at pos x xs = take pos xs @ x # drop pos xs"

section \<open>IndexRange\<close>

text \<open>
  The struct \<open>IndexRange {from, to}\<close>. Its fields are called \<open>from_idx\<close> and
  \<open>to_idx\<close> here, \<open>from\<close> being a keyword of the proof language.
\<close>

record IndexRange =
  from_idx :: size_t
  to_idx :: size_t

text \<open>
  Modelled from the spec: \<open>IndexRange::isAscending\<close>, \<open>IndexRange::isDescending\<close> and
  \<open>IndexRange::operator<\<close> are declared in IndexRange.h, which is not among the sources.
  The spec gives them as \<open>from \<le> to\<close>, \<open>from \<ge> to\<close> and the lexicographic order
  on \<open>(from, to)\<close>.
\<close>

definition isAscending :: "IndexRange \<Rightarrow> bool" where
  "isAscending r = (from_idx r \<le> to_idx r)"

definition isDescending :: "IndexRange \<Rightarrow> bool" where
  "isDescending r = (from_idx r \<ge> to_idx r)"

definition IndexRange_less :: "IndexRange \<Rightarrow> IndexRange \<Rightarrow> bool" where
  "IndexRange_less a b =
     (from_idx a < from_idx b \<or> (from_idx a = from_idx b \<and> to_idx a < to_idx b))"


section \<open>IndexRangeList\<close>

text \<open>
  The list of ranges is the state; every operation takes it and returns the new one.
  The flag \<open>debug\<close> is the compile-time switch \<open>IN_DEBUG_MODE\<close>. The messages of
  the exceptions are those of the source without the printed ranges (\<open>toString\<close> is
  not among the sources).
\<close>

definition covers :: "IndexRange list \<Rightarrow> size_t \<Rightarrow> bool" where
  "covers list index =
     (if list = [] then False
      else (let r = upper_bound IndexRange_less list \<lparr>from_idx = index, to_idx = - 1\<rparr>
            in if r = 0 then False else index \<le> to_idx (list ! (r - 1))))"

definition push_back :: "bool \<Rightarrow> IndexRange \<Rightarrow> IndexRange list \<Rightarrow> error + IndexRange list" where
  "push_back debug rng list =
     (if debug \<and> isDescending rng
        then Inl (RuntimeError ''IndexRangeList::push_back() range is descending'')
      else if debug \<and> list \<noteq> [] \<and> to_idx (last list) > from_idx rng
        then Inl (RuntimeError ''IndexRangeList::push_back() violates order given last range'')
      else Inr (list @ [rng]))"


text \<open>A sequence of \<open>push_back\<close> calls; the first exception ends it.\<close>

fun push_back_all :: "bool \<Rightarrow> IndexRange list \<Rightarrow> IndexRange list \<Rightarrow> error + IndexRange list" where
  "push_back_all debug [] list = Inr list"
| "push_back_all debug (r # rs) list =
     (case push_back debug r list of
        Inl e \<Rightarrow> Inl e
      | Inr list' \<Rightarrow> push_back_all debug rs list')"

text \<open>
  The pushed ranges are ascending and do not overlap: each has \<open>from \<le> to\<close>, and each
  starts no earlier than its predecessor ends.
\<close>

fun ascending_nonoverlapping :: "IndexRange list \<Rightarrow> bool" where
  "ascending_nonoverlapping [] = True"
| "ascending_nonoverlapping [r] = isAscending r"
| "ascending_nonoverlapping (r # s # rs) =
     (isAscending r \<and> to_idx r \<le> from_idx s \<and> ascending_nonoverlapping (s # rs))"

section \<open>InteractionEnergy\<close>

text \<open>
  Energies (\<open>E_type\<close>) are modelled as real numbers: the sums and products below are the
  exact ones, not their floating-point roundings.
\<close>

type_synonym E_type = real

text \<open>
  The accessibility collaborator: the sequence it belongs to (as \<open>asString()\<close> gives it)
  and its table of ED values.
\<close>

record Accessibility =
  getSequence :: string
  getED :: "size_t \<Rightarrow> size_t \<Rightarrow> E_type"

text \<open>
  An energy object: its four data members, the pure virtual functions that a concrete
  energy model supplies, and what it uses from headers that are not among the sources,
  taken as parameters: the sentinel \<open>E_INF\<close> and the test \<open>E_isNotINF\<close> of general.h,
  and \<open>RnaSequence::areComplementary\<close>.
\<close>

record InteractionEnergy =
  accS1 :: Accessibility
  accS2 :: Accessibility
  maxInternalLoopSize1 :: size_t
  maxInternalLoopSize2 :: size_t
  getE_danglingLeft :: "size_t \<Rightarrow> size_t \<Rightarrow> E_type"
  getE_danglingRight :: "size_t \<Rightarrow> size_t \<Rightarrow> E_type"
  getE_endLeft :: "size_t \<Rightarrow> size_t \<Rightarrow> E_type"
  getE_endRight :: "size_t \<Rightarrow> size_t \<Rightarrow> E_type"
  getRT :: E_type
  E_INF :: E_type
  E_isNotINF :: "E_type \<Rightarrow> bool"
  RnaSequence_areComplementary :: "string \<Rightarrow> string \<Rightarrow> size_t \<Rightarrow> size_t \<Rightarrow> bool"

text \<open>
  \<open>seq.asString().at(i)\<close> is only reached when both size tests have passed, as the
  short-circuit conjunction of the source has it.
\<close>

definition isAllowedLoopRegion :: "string \<Rightarrow> size_t \<Rightarrow> size_t \<Rightarrow> size_t \<Rightarrow> bool" where
  "isAllowedLoopRegion seq i j maxInternalLoopSize =
     (if unat i < length seq \<and> unat j < length seq
      then seq ! unat i \<noteq> CHR ''N''
         \<and> seq ! unat j \<noteq> CHR ''N''
         \<and> i \<le> j
         \<and> (j - i) \<le> (1 + maxInternalLoopSize)
      else False)"

definition areComplementary :: "InteractionEnergy \<Rightarrow> size_t \<Rightarrow> size_t \<Rightarrow> bool" where
  "areComplementary e i1 i2 =
     RnaSequence_areComplementary e (getSequence (accS1 e)) (getSequence (accS2 e)) i1 i2"

definition size1 :: "InteractionEnergy \<Rightarrow> size_t" where
  "size1 e = of_nat (length (getSequence (accS1 e)))"

definition size2 :: "InteractionEnergy \<Rightarrow> size_t" where
  "size2 e = of_nat (length (getSequence (accS2 e)))"

definition isValidInternalLoop ::
    "InteractionEnergy \<Rightarrow> size_t \<Rightarrow> size_t \<Rightarrow> size_t \<Rightarrow> size_t \<Rightarrow> bool" where
  "isValidInternalLoop e i1 j1 i2 j2 =
     ((j1 - i1 > 0 \<and> j2 - i2 > 0)
      \<and> areComplementary e i1 i2
      \<and> areComplementary e j1 j2
      \<and> isAllowedLoopRegion (getSequence (accS1 e)) i1 j1 (maxInternalLoopSize1 e)
      \<and> isAllowedLoopRegion (getSequence (accS2 e)) i2 j2 (maxInternalLoopSize2 e))"

definition getBoltzmannWeight :: "InteractionEnergy \<Rightarrow> E_type \<Rightarrow> E_type" where
  "getBoltzmannWeight e energy = exp (- energy / getRT e)"

definition getED1 :: "InteractionEnergy \<Rightarrow> size_t \<Rightarrow> size_t \<Rightarrow> E_type" where
  "getED1 e i1 j1 = getED (accS1 e) i1 j1"

definition getED2 :: "InteractionEnergy \<Rightarrow> size_t \<Rightarrow> size_t \<Rightarrow> E_type" where
  "getED2 e i2 j2 = getED (accS2 e) i2 j2"

definition getPr_danglingLeft ::
    "InteractionEnergy \<Rightarrow> size_t \<Rightarrow> size_t \<Rightarrow> size_t \<Rightarrow> size_t \<Rightarrow> E_type" where
  "getPr_danglingLeft e i1 j1 i2 j2 =
     (let probDangle1 =
            (if i1 > 0
             then max 0 (min 1 (getBoltzmannWeight e (getED1 e (i1 - 1) j1 - getED1 e i1 j1)))
             else 1);
          probDangle2 =
            (if i2 > 0
             then max 0 (min 1 (getBoltzmannWeight e (getED2 e (i2 - 1) j2 - getED2 e i2 j2)))
             else 1)
      in probDangle1 * probDangle2)"

definition getPr_danglingRight ::
    "InteractionEnergy \<Rightarrow> size_t \<Rightarrow> size_t \<Rightarrow> size_t \<Rightarrow> size_t \<Rightarrow> E_type" where
  "getPr_danglingRight e i1 j1 i2 j2 =
     (let probDangle1 =
            (if j1 + 1 < size1 e
             then max 0 (min 1 (getBoltzmannWeight e (getED1 e i1 (j1 + 1) - getED1 e i1 j1)))
             else 1);
          probDangle2 =
            (if j2 + 1 < size2 e
             then max 0 (min 1 (getBoltzmannWeight e (getED2 e i2 (j2 + 1) - getED2 e i2 j2)))
             else 1)
      in probDangle1 * probDangle2)"

definition getE ::
    "InteractionEnergy \<Rightarrow> size_t \<Rightarrow> size_t \<Rightarrow> size_t \<Rightarrow> size_t \<Rightarrow> E_type \<Rightarrow> E_type" where
  "getE e i1 j1 i2 j2 hybridE =
     (if E_isNotINF e hybridE
      then hybridE
           + getED1 e i1 j1
           + getED2 e i2 j2
           + (getE_danglingLeft e i1 i2 * getPr_danglingLeft e i1 j1 i2 j2)
           + (getE_danglingRight e j1 j2 * getPr_danglingRight e i1 j1 i2 j2)
           + getE_endLeft e i1 i2
           + getE_endRight e j1 j2
      else E_INF e)"

subsection \<open>The four-lane path\<close>

text \<open>
  A 128-bit vector is its four lanes; \<open>v[k]\<close> is \<open>lane v k\<close>, for the index vectors
  too, of which the source reads the lanes 0 to 3. The arithmetic intrinsics
  work lane by lane. \<open>_mm_cmpeq_ps\<close> yields a mask, all ones in a lane where the operands
  are equal and all zeros elsewhere: a truth value per lane. \<open>_mm_and_ps\<close> with a mask
  keeps a lane or clears it to \<open>+0.0\<close>, \<open>_mm_andnot_ps\<close> does the opposite, and
  \<open>_mm_or_ps\<close> of two lanes of which one is cleared is the other one.
\<close>

datatype 'a m128 = M128 'a 'a 'a 'a

fun lane :: "'a m128 \<Rightarrow> nat \<Rightarrow> 'a" where
  "lane (M128 a b c d) k = (if k = 0 then a else if k = 1 then b else if k = 2 then c else d)"

fun lanewise :: "('a \<Rightarrow> 'b \<Rightarrow> 'c) \<Rightarrow> 'a m128 \<Rightarrow> 'b m128 \<Rightarrow> 'c m128" where
  "lanewise f (M128 a0 a1 a2 a3) (M128 b0 b1 b2 b3) = M128 (f a0 b0) (f a1 b1) (f a2 b2) (f a3 b3)"

definition mm_add_ps :: "E_type m128 \<Rightarrow> E_type m128 \<Rightarrow> E_type m128" where
  "mm_add_ps = lanewise (\<lambda>a b. a + b)"

definition mm_mul_ps :: "E_type m128 \<Rightarrow> E_type m128 \<Rightarrow> E_type m128" where
  "mm_mul_ps = lanewise (\<lambda>a b. a * b)"

definition mm_cmpeq_ps :: "E_type m128 \<Rightarrow> E_type m128 \<Rightarrow> bool m128" where
  "mm_cmpeq_ps = lanewise (\<lambda>a b. a = b)"

definition mm_and_ps :: "bool m128 \<Rightarrow> E_type m128 \<Rightarrow> E_type m128" where
  "mm_and_ps = lanewise (\<lambda>m a. if m then a else 0)"

definition mm_andnot_ps :: "bool m128 \<Rightarrow> E_type m128 \<Rightarrow> E_type m128" where
  "mm_andnot_ps = lanewise (\<lambda>m a. if m then 0 else a)"

definition mm_or_ps :: "E_type m128 \<Rightarrow> E_type m128 \<Rightarrow> E_type m128" where
  "mm_or_ps = lanewise (\<lambda>a b. if a = 0 then b else a)"

definition getE_SSE ::
    "InteractionEnergy \<Rightarrow> size_t m128 \<Rightarrow> size_t m128 \<Rightarrow> size_t m128 \<Rightarrow> size_t m128
       \<Rightarrow> E_type m128 \<Rightarrow> E_type m128" where
  "getE_SSE e i1 j1 i2 j2 hybridE =
     (let inf_v = M128 (E_INF e) (E_INF e) (E_INF e) (E_INF e);
          ed1 = M128 (getED1 e (lane i1 0) (lane j1 0)) (getED1 e (lane i1 1) (lane j1 1))
                     (getED1 e (lane i1 2) (lane j1 2)) (getED1 e (lane i1 3) (lane j1 3));
          ed2 = M128 (getED2 e (lane i2 0) (lane j2 0)) (getED2 e (lane i2 1) (lane j2 1))
                     (getED2 e (lane i2 2) (lane j2 2)) (getED2 e (lane i2 3) (lane j2 3));
          E_danglingLeft =
            M128 (getE_danglingLeft e (lane i1 0) (lane i2 0))
                 (getE_danglingLeft e (lane i1 1) (lane i2 1))
                 (getE_danglingLeft e (lane i1 2) (lane i2 2))
                 (getE_danglingLeft e (lane i1 3) (lane i2 3));
          Pr_danglingLeft =
            M128 (getPr_danglingLeft e (lane i1 0) (lane j1 0) (lane i2 0) (lane j2 0))
                 (getPr_danglingLeft e (lane i1 1) (lane j1 1) (lane i2 1) (lane j2 1))
                 (getPr_danglingLeft e (lane i1 2) (lane j1 2) (lane i2 2) (lane j2 2))
                 (getPr_danglingLeft e (lane i1 3) (lane j1 3) (lane i2 3) (lane j2 3));
          E_danglingRight =
            M128 (getE_danglingRight e (lane j1 0) (lane j2 0))
                 (getE_danglingRight e (lane j1 1) (lane j2 1))
                 (getE_danglingRight e (lane j1 2) (lane j2 2))
                 (getE_danglingRight e (lane j1 3) (lane j2 3));
          Pr_danglingRight =
            M128 (getPr_danglingRight e (lane i1 0) (lane j1 0) (lane i2 0) (lane j2 0))
                 (getPr_danglingRight e (lane i1 1) (lane j1 1) (lane i2 1) (lane j2 1))
                 (getPr_danglingRight e (lane i1 2) (lane j1 2) (lane i2 2) (lane j2 2))
                 (getPr_danglingRight e (lane i1 3) (lane j1 3) (lane i2 3) (lane j2 3));
          E_endLeft =
            M128 (getE_endLeft e (lane i1 0) (lane i2 0)) (getE_endLeft e (lane i1 1) (lane i2 1))
                 (getE_endLeft e (lane i1 2) (lane i2 2)) (getE_endLeft e (lane i1 3) (lane i2 3));
          E_endRight =
            M128 (getE_endRight e (lane j1 0) (lane j2 0)) (getE_endRight e (lane j1 1) (lane j2 1))
                 (getE_endRight e (lane j1 2) (lane j2 2)) (getE_endRight e (lane j1 3) (lane j2 3));
          result0 = mm_add_ps (mm_add_ps (mm_add_ps ed1 ed2) E_endLeft) E_endRight;
          resultMultiplication =
            mm_add_ps (mm_mul_ps E_danglingLeft Pr_danglingLeft)
                      (mm_mul_ps E_danglingRight Pr_danglingRight);
          result = mm_add_ps result0 resultMultiplication;
          infCompare = mm_cmpeq_ps hybridE inf_v
      in mm_or_ps (mm_and_ps infCompare inf_v) (mm_andnot_ps infCompare result))"

section \<open>InteractionEnergyBasePair\<close>

definition BasePair_getE_init :: E_type where
  "BasePair_getE_init = - 1"

definition BasePair_getBestE_interLoop :: E_type where
  "BasePair_getBestE_interLoop = BasePair_getE_init"

definition BasePair_getE_interLeft ::
    "InteractionEnergy \<Rightarrow> size_t \<Rightarrow> size_t \<Rightarrow> size_t \<Rightarrow> size_t \<Rightarrow> E_type" where
  "BasePair_getE_interLeft e i1 j1 i2 j2 =
     (if isValidInternalLoop e i1 j1 i2 j2 then BasePair_getBestE_interLoop else E_INF e)"

text \<open>
  The object the constructor of \<open>InteractionEnergyBasePair\<close> builds: the four members it
  hands to the base class, and the overrides of this class in the virtual slots.
\<close>

definition InteractionEnergyBasePair ::
    "Accessibility \<Rightarrow> Accessibility \<Rightarrow> size_t \<Rightarrow> size_t \<Rightarrow> E_type \<Rightarrow> (E_type \<Rightarrow> bool)
       \<Rightarrow> (string \<Rightarrow> string \<Rightarrow> size_t \<Rightarrow> size_t \<Rightarrow> bool) \<Rightarrow> InteractionEnergy" where
  "InteractionEnergyBasePair a1 a2 maxLoop1 maxLoop2 e_inf e_isNotInf compl =
     \<lparr> accS1 = a1, accS2 = a2,
       maxInternalLoopSize1 = maxLoop1, maxInternalLoopSize2 = maxLoop2,
       getE_danglingLeft = (\<lambda>i1 i2. 0), getE_danglingRight = (\<lambda>j1 j2. 0),
       getE_endLeft = (\<lambda>i1 i2. 0), getE_endRight = (\<lambda>j1 j2. 0),
       getRT = 1,
       E_INF = e_inf, E_isNotINF = e_isNotInf, RnaSequence_areComplementary = compl \<rparr>"

section \<open>OutputHandlerInteractionList\<close>

text \<open>
  A call either returns, leaving the object in a new state, or throws, leaving it in the
  state it had reached, or has no defined behaviour at all.
\<close>

datatype 's outcome = Returned 's | Thrown error 's | Undefined

text \<open>
  The handler: the stored interactions, best first, the capacity, and the count of all
  reports. The stored pointers own their copies, so the storage is the list of the copies.
\<close>

record 'a OutputHandlerInteractionList =
  storage :: "'a list"
  maxToStore :: size_t
  reportedInteractions :: size_t

text \<open>
  Modelled from the spec: \<open>lessThan_StorageContainer\<close> compares the two interactions
  pointed to with \<open>Interaction::operator<\<close>; neither is among the sources. The spec
  has it a total order on a rank key (the energy, ties broken by a secondary key): here
  the key is the parameter \<open>rank\<close>. \<open>Interaction::isEmpty\<close> is the parameter
  \<open>isEmpty\<close>.
\<close>

definition lessThan_StorageContainer :: "('a \<Rightarrow> 'k::linorder) \<Rightarrow> 'a \<Rightarrow> 'a \<Rightarrow> bool" where
  "lessThan_StorageContainer rank a b = (rank a < rank b)"

text \<open>
  The body of the outer \<open>if\<close> of \<open>add\<close>. Iterators are positions counted from
  \<open>begin()\<close>, integers since \<open>std::prev\<close> may step before it; the position of
  \<open>end()\<close> is the length. Deleting \<open>*(storage.rbegin())\<close> of an empty storage, and
  inserting at a position outside the storage, have no defined behaviour.
\<close>

definition add_update ::
    "('a \<Rightarrow> 'k::linorder) \<Rightarrow> 'a \<Rightarrow> 'a OutputHandlerInteractionList
       \<Rightarrow> 'a OutputHandlerInteractionList outcome" where
  "add_update rank interaction h =
     (let st = storage h;
          insertPos = int (lower_bound (lessThan_StorageContainer rank) st interaction)
      in if insertPos = int (length st)
            \<or> lessThan_StorageContainer rank interaction (st ! nat insertPos)
         then
           (if length st \<ge> unat (maxToStore h)
            then
              (if st = [] then Undefined
               else
                 (let isLastElement = (insertPos = int (length st) - 1);
                      insertPos1 = (if isLastElement then insertPos - 1 else insertPos);
                      st1 = butlast st;
                      insertPos2 = (if isLastElement then insertPos1 + 1 else insertPos1)
                  in if 0 \<le> insertPos2 \<and> insertPos2 \<le> int (length st1)
                     then Returned (h\<lparr>storage := insert_at (nat insertPos2) interaction st1\<rparr>)
                     else Undefined))
            else Returned (h\<lparr>storage := insert_at (nat insertPos) interaction st\<rparr>))
         else Returned h)"

text \<open>
  \<open>add(const Interaction &)\<close>. When the storage is not below its capacity the source
  reads \<open>*(storage.rbegin())\<close>, which is not defined on an empty storage.
\<close>

definition add ::
    "('a \<Rightarrow> bool) \<Rightarrow> ('a \<Rightarrow> 'k::linorder) \<Rightarrow> 'a \<Rightarrow> 'a OutputHandlerInteractionList
       \<Rightarrow> 'a OutputHandlerInteractionList outcome" where
  "add isEmpty rank interaction h =
     (if isEmpty interaction
      then Returned (h\<lparr>reportedInteractions := reportedInteractions h + 1\<rparr>)
      else
        (let h1 = h\<lparr>reportedInteractions := reportedInteractions h + 1\<rparr>
         in if length (storage h1) < unat (maxToStore h1) then add_update rank interaction h1
            else if storage h1 = [] then Undefined
            else if lessThan_StorageContainer rank interaction (last (storage h1))
              then add_update rank interaction h1
            else Returned h1))"

text \<open>
  Modelled from the spec: \<open>add(const InteractionRange &)\<close> consists of the macro
  \<open>INTARNA_NOT_IMPLEMENTED\<close>, whose definition is not among the sources. The spec has
  it an explicit failure saying that the operation is not supported: an exception, thrown
  before anything is touched.
\<close>

definition add_range ::
    "'r \<Rightarrow> 'a OutputHandlerInteractionList \<Rightarrow> 'a OutputHandlerInteractionList outcome" where
  "add_range rng h =
     Thrown (NotImplemented
       ''OutputHandlerInteractionList::add( const InteractionRange & range )'') h"

text \<open>The constructor, and a sequence of reports by one thread.\<close>

definition OutputHandlerInteractionList_new :: "size_t \<Rightarrow> 'a OutputHandlerInteractionList" where
  "OutputHandlerInteractionList_new K =
     \<lparr> storage = [], maxToStore = K, reportedInteractions = 0 \<rparr>"

fun add_all ::
    "('a \<Rightarrow> bool) \<Rightarrow> ('a \<Rightarrow> 'k::linorder) \<Rightarrow> 'a list \<Rightarrow> 'a OutputHandlerInteractionList
       \<Rightarrow> 'a OutputHandlerInteractionList outcome" where
  "add_all isEmpty rank [] h = Returned h"
| "add_all isEmpty rank (x # xs) h =
     (case add isEmpty rank x h of
        Returned h' \<Rightarrow> add_all isEmpty rank xs h'
      | Thrown err h' \<Rightarrow> Thrown err h'
      | Undefined \<Rightarrow> Undefined)"

text \<open>
  The invariant of the storage of a handler of capacity \<open>K\<close> that has been told of the
  non-empty interactions \<open>S\<close>: it is in strictly ascending order of rank, holds at most
  \<open>K\<close> interactions, all of them from \<open>S\<close>, and every interaction of \<open>S\<close> either
  has its rank in the storage or ranks after all that a full storage holds.
\<close>

definition keeps_best :: "('a \<Rightarrow> 'k::linorder) \<Rightarrow> nat \<Rightarrow> 'a set \<Rightarrow> 'a list \<Rightarrow> bool" where
  "keeps_best rank K S st =
     (sorted_wrt (lessThan_StorageContainer rank) st
      \<and> length st \<le> K
      \<and> set st \<subseteq> S
      \<and> (\<forall>y \<in> S. rank y \<in> rank ` set st
             \<or> (length st = K \<and> (\<forall>x \<in> set st. rank x < rank y))))"

section \<open>Concrete objects\<close>

text \<open>
  Objects on which the functions above are run: a complementarity test that pairs A with
  U, G with C and G with U; the base-pair energy object of the sequences \<open>AGN\<close> and
  \<open>UCA\<close> with the default loop sizes and flat accessibilities; a variant of it
  whose accessibility, dangling-end and end energies are not zero; and a variant of that
  one in which the accessibility penalty of the first sequence is the length of the
  region.
\<close>

definition example_areComplementary :: "string \<Rightarrow> string \<Rightarrow> size_t \<Rightarrow> size_t \<Rightarrow> bool" where
  "example_areComplementary s1 s2 i1 i2 =
     (if unat i1 < length s1 \<and> unat i2 < length s2
      then (s1 ! unat i1, s2 ! unat i2)
             \<in> set [(CHR ''A'', CHR ''U''), (CHR ''U'', CHR ''A''), (CHR ''G'', CHR ''C''),
                    (CHR ''C'', CHR ''G''), (CHR ''G'', CHR ''U''), (CHR ''U'', CHR ''G'')]
      else False)"

definition example_energy :: InteractionEnergy where
  "example_energy =
     InteractionEnergyBasePair
       \<lparr>getSequence = ''AGN'', getED = (\<lambda>i j. 0)\<rparr>
       \<lparr>getSequence = ''UCA'', getED = (\<lambda>i j. 0)\<rparr>
       16 16 1000000 (\<lambda>x. x < 1000000) example_areComplementary"

definition example_energy_dangling :: InteractionEnergy where
  "example_energy_dangling =
     example_energy
       \<lparr> accS1 := \<lparr>getSequence = ''AGN'', getED = (\<lambda>i j. 3)\<rparr>,
         accS2 := \<lparr>getSequence = ''UCA'', getED = (\<lambda>i j. 2)\<rparr>,
         getE_danglingLeft := (\<lambda>i1 i2. - 1),
         getE_danglingRight := (\<lambda>j1 j2. - 2),
         getE_endLeft := (\<lambda>i1 i2. 1 / 2),
         getE_endRight := (\<lambda>j1 j2. 1 / 4) \<rparr>"

definition example_energy_varying :: InteractionEnergy where
  "example_energy_varying =
     example_energy_dangling
       \<lparr> accS1 := \<lparr>getSequence = ''AGN'',
                   getED = (\<lambda>i j. real (unat j) - real (unat i) + 1)\<rparr> \<rparr>"

section \<open>Correctness of the binary search\<close>

text \<open>
  On a range that the predicate partitions (every element satisfying it stands before
  every element that does not), the search returns the partition point.
\<close>

lemma partition_search_point:
  assumes "first + len \<le> length xs"
    and "\<And>i. i < first \<Longrightarrow> P (xs ! i)"
    and "\<And>i. first + len \<le> i \<Longrightarrow> i < length xs \<Longrightarrow> \<not> P (xs ! i)"
    and "\<And>i j. i \<le> j \<Longrightarrow> j < length xs \<Longrightarrow> P (xs ! j) \<Longrightarrow> P (xs ! i)"
  shows "first \<le> partition_search P xs first len
       \<and> partition_search P xs first len \<le> first + len
       \<and> (\<forall>i < partition_search P xs first len. P (xs ! i))
       \<and> (\<forall>i. partition_search P xs first len \<le> i \<and> i < length xs \<longrightarrow> \<not> P (xs ! i))"
  using assms
proof (induction P xs first len rule: partition_search.induct)
  case (1 P xs first len)
  show ?case
  proof (cases "0 < len")
    case False
    then have eq: "partition_search P xs first len = first"
      by (subst partition_search.simps) simp
    from False have "len = 0" by simp
    with 1(4) 1(5) show ?thesis unfolding eq by auto
  next
    case pos: True
    let ?mid = "first + len div 2"
    have mid: "?mid < length xs" using pos 1(3) by simp
    show ?thesis
    proof (cases "P (xs ! ?mid)")
      case True
      define r where "r = partition_search P xs (?mid + 1) (len - (len div 2 + 1))"
      have eq: "partition_search P xs first len = r"
        using pos True by (subst partition_search.simps) (simp add: r_def)
      have below: "\<And>i. i < ?mid + 1 \<Longrightarrow> P (xs ! i)"
        using 1(6) [OF _ mid True] by simp
      have above: "\<And>i. ?mid + 1 + (len - (len div 2 + 1)) \<le> i \<Longrightarrow> i < length xs \<Longrightarrow> \<not> P (xs ! i)"
        using 1(5) pos by simp
      have fits: "?mid + 1 + (len - (len div 2 + 1)) \<le> length xs"
        using 1(3) pos by simp
      have "?mid + 1 \<le> r \<and> r \<le> ?mid + 1 + (len - (len div 2 + 1))
            \<and> (\<forall>i < r. P (xs ! i))
            \<and> (\<forall>i. r \<le> i \<and> i < length xs \<longrightarrow> \<not> P (xs ! i))"
        unfolding r_def
      proof (rule 1(1) [OF pos True fits])
        show "\<And>i. i < ?mid + 1 \<Longrightarrow> P (xs ! i)"
          by (rule below)
        show "\<And>i. ?mid + 1 + (len - (len div 2 + 1)) \<le> i \<Longrightarrow> i < length xs \<Longrightarrow> \<not> P (xs ! i)"
          by (rule above)
        show "\<And>i j. i \<le> j \<Longrightarrow> j < length xs \<Longrightarrow> P (xs ! j) \<Longrightarrow> P (xs ! i)"
          by (rule 1(6))
      qed
      then have lo: "?mid + 1 \<le> r" and hi: "r \<le> ?mid + 1 + (len - (len div 2 + 1))"
        and left: "\<forall>i < r. P (xs ! i)"
        and right: "\<forall>i. r \<le> i \<and> i < length xs \<longrightarrow> \<not> P (xs ! i)"
        by blast+
      from lo have "first \<le> r" by simp
      moreover from hi pos have "r \<le> first + len" by simp
      ultimately show ?thesis unfolding eq using left right by blast
    next
      case False
      define r where "r = partition_search P xs first (len div 2)"
      have eq: "partition_search P xs first len = r"
        using pos False by (subst partition_search.simps) (simp add: r_def)
      have above: "\<And>i. first + len div 2 \<le> i \<Longrightarrow> i < length xs \<Longrightarrow> \<not> P (xs ! i)"
      proof -
        fix i assume "first + len div 2 \<le> i" "i < length xs"
        then show "\<not> P (xs ! i)" using 1(6) [of ?mid i] False by blast
      qed
      have fits: "first + len div 2 \<le> length xs" using mid by simp
      have "first \<le> r \<and> r \<le> first + len div 2
            \<and> (\<forall>i < r. P (xs ! i))
            \<and> (\<forall>i. r \<le> i \<and> i < length xs \<longrightarrow> \<not> P (xs ! i))"
        unfolding r_def
      proof (rule 1(2) [OF pos False fits])
        show "\<And>i. i < first \<Longrightarrow> P (xs ! i)"
          by (rule 1(4))
        show "\<And>i. first + len div 2 \<le> i \<Longrightarrow> i < length xs \<Longrightarrow> \<not> P (xs ! i)"
          by (rule above)
        show "\<And>i j. i \<le> j \<Longrightarrow> j < length xs \<Longrightarrow> P (xs ! j) \<Longrightarrow> P (xs ! i)"
          by (rule 1(6))
      qed
      then have lo: "first \<le> r" and hi: "r \<le> first + len div 2"
        and left: "\<forall>i < r. P (xs ! i)"
        and right: "\<forall>i. r \<le> i \<and> i < length xs \<longrightarrow> \<not> P (xs ! i)"
        by blast+
      from hi have "r \<le> first + len" by simp
      with lo show ?thesis unfolding eq using left right by blast
    qed
  qed
qed

lemma partition_search_whole:
  assumes "\<And>i j. i \<le> j \<Longrightarrow> j < length xs \<Longrightarrow> P (xs ! j) \<Longrightarrow> P (xs ! i)"
  shows "partition_search P xs 0 (length xs) \<le> length xs"
    and "\<And>i. i < partition_search P xs 0 (length xs) \<Longrightarrow> P (xs ! i)"
    and "\<And>i. partition_search P xs 0 (length xs) \<le> i \<Longrightarrow> i < length xs \<Longrightarrow> \<not> P (xs ! i)"
proof -
  have "0 \<le> partition_search P xs 0 (length xs)
       \<and> partition_search P xs 0 (length xs) \<le> 0 + length xs
       \<and> (\<forall>i < partition_search P xs 0 (length xs). P (xs ! i))
       \<and> (\<forall>i. partition_search P xs 0 (length xs) \<le> i \<and> i < length xs \<longrightarrow> \<not> P (xs ! i))"
    by (rule partition_search_point) (use assms in auto)
  then show "partition_search P xs 0 (length xs) \<le> length xs"
    and "\<And>i. i < partition_search P xs 0 (length xs) \<Longrightarrow> P (xs ! i)"
    and "\<And>i. partition_search P xs 0 (length xs) \<le> i \<Longrightarrow> i < length xs \<Longrightarrow> \<not> P (xs ! i)"
    by auto
qed

section \<open>Coverage queries on an appended list\<close>

lemma push_back_all_appends:
  "push_back_all debug rs list = Inr list' \<Longrightarrow> list' = list @ rs"
proof (induction rs arbitrary: list)
  case Nil
  then show ?case by simp
next
  case (Cons r rs)
  from Cons.prems obtain list1 where step: "push_back debug r list = Inr list1"
    and rest: "push_back_all debug rs list1 = Inr list'"
    by (auto split: sum.splits)
  from step have "list1 = list @ [r]"
    by (auto simp: push_back_def split: if_splits)
  with Cons.IH [OF rest] show ?case by simp
qed

lemma push_back_all_release: "push_back_all False rs list = Inr (list @ rs)"
  by (induction rs arbitrary: list) (simp_all add: push_back_def)

lemma ascending_nonoverlapping_Cons:
  "ascending_nonoverlapping (r # rs) \<Longrightarrow>
     isAscending r \<and> (\<forall>s \<in> set rs. to_idx r \<le> from_idx s) \<and> ascending_nonoverlapping rs"
proof (induction rs arbitrary: r)
  case Nil
  then show ?case by simp
next
  case (Cons s rs)
  from Cons.prems have r: "isAscending r" and rs: "to_idx r \<le> from_idx s"
    and tl: "ascending_nonoverlapping (s # rs)"
    by simp_all
  from Cons.IH [OF tl] have s: "isAscending s" and srs: "\<forall>t \<in> set rs. to_idx s \<le> from_idx t"
    by simp_all
  have "\<forall>t \<in> set rs. to_idx r \<le> from_idx t"
  proof
    fix t assume "t \<in> set rs"
    with srs have "to_idx s \<le> from_idx t" by simp
    moreover from s have "from_idx s \<le> to_idx s" by (simp add: isAscending_def)
    ultimately show "to_idx r \<le> from_idx t" using rs by simp
  qed
  with r rs tl show ?case by simp
qed

lemma ascending_nonoverlapping_sorted:
  "ascending_nonoverlapping rs \<Longrightarrow>
     (\<forall>r \<in> set rs. isAscending r) \<and> sorted_wrt (\<lambda>a b. to_idx a \<le> from_idx b) rs"
proof (induction rs)
  case Nil
  then show ?case by simp
next
  case (Cons r rs)
  from ascending_nonoverlapping_Cons [OF Cons.prems] Cons.IH show ?case by simp
qed

lemma covers_characterisation:
  assumes asc: "\<forall>r \<in> set list. isAscending r"
    and chain: "sorted_wrt (\<lambda>a b. to_idx a \<le> from_idx b) list"
  shows "covers list x \<longleftrightarrow> (\<exists>r \<in> set list. from_idx r \<le> x \<and> x \<le> to_idx r)"
proof (cases "list = []")
  case True
  then show ?thesis by (simp add: covers_def)
next
  case nonempty: False
  define P where "P = (\<lambda>e. \<not> IndexRange_less \<lparr>from_idx = x, to_idx = - 1\<rparr> e)"
  have P_iff: "P e \<longleftrightarrow> from_idx e \<le> x" for e
    by (auto simp: P_def IndexRange_less_def not_less word_order.extremum_strict)
  have asc_nth: "from_idx (list ! i) \<le> to_idx (list ! i)" if "i < length list" for i
    using asc that by (simp add: isAscending_def)
  have chain_nth: "to_idx (list ! i) \<le> from_idx (list ! j)" if "i < j" "j < length list" for i j
    using chain that by (simp add: sorted_wrt_iff_nth_less)
  have mono: "from_idx (list ! i) \<le> from_idx (list ! j)" if "i \<le> j" "j < length list" for i j
  proof (cases "i = j")
    case True
    then show ?thesis by simp
  next
    case False
    with that have "i < j" by simp
    from chain_nth [OF this that(2)] asc_nth [of i] that show ?thesis by simp
  qed
  have part: "P (list ! i)" if "i \<le> j" "j < length list" "P (list ! j)" for i j
    using mono [OF that(1,2)] that(3) by (simp add: P_iff)
  define r where "r = upper_bound IndexRange_less list \<lparr>from_idx = x, to_idx = - 1\<rparr>"
  have r_eq: "r = partition_search P list 0 (length list)"
    by (simp add: r_def upper_bound_def P_def)
  have r_le: "r \<le> length list"
    unfolding r_eq using partition_search_whole(1) [of list P] part by blast
  have r_below: "P (list ! i)" if "i < r" for i
    using that partition_search_whole(2) [of list P i] part unfolding r_eq by blast
  have r_above: "\<not> P (list ! i)" if "r \<le> i" "i < length list" for i
    using that partition_search_whole(3) [of list P i] part unfolding r_eq by blast
  have cov: "covers list x \<longleftrightarrow> (r \<noteq> 0 \<and> x \<le> to_idx (list ! (r - 1)))"
    using nonempty by (simp add: covers_def r_def Let_def)
  show ?thesis
  proof
    assume "covers list x"
    with cov have r0: "r \<noteq> 0" and le: "x \<le> to_idx (list ! (r - 1))" by simp_all
    from r0 r_le have in_list: "r - 1 < length list" by simp
    from r0 r_below [of "r - 1"] have "from_idx (list ! (r - 1)) \<le> x" by (simp add: P_iff)
    with le in_list show "\<exists>q \<in> set list. from_idx q \<le> x \<and> x \<le> to_idx q"
      using nth_mem by blast
  next
    assume "\<exists>q \<in> set list. from_idx q \<le> x \<and> x \<le> to_idx q"
    then obtain k where k: "k < length list"
      and lo: "from_idx (list ! k) \<le> x" and hi: "x \<le> to_idx (list ! k)"
      by (auto simp: in_set_conv_nth)
    have "k < r"
    proof (rule ccontr)
      assume "\<not> k < r"
      then have "\<not> P (list ! k)" using r_above [of k] k by simp
      with lo show False by (simp add: P_iff)
    qed
    then have r0: "r \<noteq> 0" by simp
    have "x \<le> to_idx (list ! (r - 1))"
    proof (cases "k = r - 1")
      case True
      with hi show ?thesis by simp
    next
      case False
      with \<open>k < r\<close> have lt: "k < r - 1" by simp
      from r0 r_le have in_list: "r - 1 < length list" by simp
      from chain_nth [OF lt in_list] asc_nth [OF in_list] hi show ?thesis by simp
    qed
    with r0 cov show "covers list x" by simp
  qed
qed

text \<open>
  In a build with \<open>IN_DEBUG_MODE\<close> the checks of \<open>push_back\<close> themselves make sure
  of the order: a sequence of calls none of which throws is ascending and not overlapping.
\<close>

lemma push_back_all_debug_checked:
  "push_back_all True rs list = Inr list' \<Longrightarrow>
     ascending_nonoverlapping rs
     \<and> (list = [] \<or> rs = [] \<or> to_idx (last list) \<le> from_idx (hd rs))"
proof (induction rs arbitrary: list)
  case Nil
  then show ?case by simp
next
  case (Cons r rs)
  from Cons.prems obtain list1 where step: "push_back True r list = Inr list1"
    and rest: "push_back_all True rs list1 = Inr list'"
    by (auto split: sum.splits)
  from step have list1: "list1 = list @ [r]" and asc: "from_idx r < to_idx r"
    and after: "list = [] \<or> to_idx (last list) \<le> from_idx r"
    by (auto simp: push_back_def isDescending_def not_le not_less split: if_splits)
  from Cons.IH [OF rest] list1 have tl: "ascending_nonoverlapping rs"
    and nxt: "rs = [] \<or> to_idx r \<le> from_idx (hd rs)"
    by simp_all
  have "ascending_nonoverlapping (r # rs)"
  proof (cases rs)
    case Nil
    with asc show ?thesis by (simp add: isAscending_def)
  next
    case (Cons s rs')
    with asc tl nxt show ?thesis by (simp add: isAscending_def)
  qed
  with after show ?case by simp
qed

text \<open>
  Claim C6. Whatever the build, if a sequence of \<open>push_back\<close> calls on the empty list has
  returned, and the ranges pushed are ascending and do not overlap, then \<open>covers\<close>
  answers true for an index exactly when the index lies between the \<open>from\<close> and the
  \<open>to\<close> of a stored range, both ends included.
\<close>

theorem covers_iff_in_some_range:
  assumes "push_back_all debug rs [] = Inr list"
    and "ascending_nonoverlapping rs"
  shows "covers list x \<longleftrightarrow> (\<exists>r \<in> set list. from_idx r \<le> x \<and> x \<le> to_idx r)"
proof -
  from push_back_all_appends [OF assms(1)] have "list = rs" by simp
  with ascending_nonoverlapping_sorted [OF assms(2)] show ?thesis
    by (simp add: covers_characterisation)
qed

theorem covers_iff_in_some_range_witness:
  "push_back_all True [\<lparr>from_idx = 2, to_idx = 5\<rparr>, \<lparr>from_idx = 7, to_idx = 9\<rparr>] []
     = Inr [\<lparr>from_idx = 2, to_idx = 5\<rparr>, \<lparr>from_idx = 7, to_idx = 9\<rparr>]
   \<and> ascending_nonoverlapping [\<lparr>from_idx = 2, to_idx = 5\<rparr>, \<lparr>from_idx = 7, to_idx = 9\<rparr>]
   \<and> covers [\<lparr>from_idx = 2, to_idx = 5\<rparr>, \<lparr>from_idx = 7, to_idx = 9\<rparr>] 5
   \<and> \<not> covers [\<lparr>from_idx = 2, to_idx = 5\<rparr>, \<lparr>from_idx = 7, to_idx = 9\<rparr>] 6"
proof -
  let ?rs = "[\<lparr>from_idx = 2, to_idx = 5\<rparr>, \<lparr>from_idx = 7, to_idx = 9 :: size_t\<rparr>]"
  have built: "push_back_all True ?rs [] = Inr ?rs"
    by (simp add: push_back_def isDescending_def)
  have order: "ascending_nonoverlapping ?rs"
    by (simp add: isAscending_def)
  have "covers ?rs 5"
    using covers_iff_in_some_range [OF built order, of 5] by simp
  moreover have "\<not> covers ?rs 6"
    using covers_iff_in_some_range [OF built order, of 6] by simp
  ultimately show ?thesis using built order by simp
qed

section \<open>Insertion in order\<close>




lemma mset_insert_at: "mset (insert_at pos x xs) = add_mset x (mset xs)"
proof -
  have "mset (take pos xs) + mset (drop pos xs) = mset xs"
    by (simp flip: mset_append)
  then show ?thesis by (simp add: insert_at_def)
qed


text \<open>
  Inserting at a position that separates the elements related to the new one from the
  left from those related to it from the right keeps a list in order.
\<close>

lemma sorted_wrt_insert_at:
  assumes "sorted_wrt R xs"
    and "\<And>i. i < pos \<Longrightarrow> i < length xs \<Longrightarrow> R (xs ! i) x"
    and "\<And>i. pos \<le> i \<Longrightarrow> i < length xs \<Longrightarrow> R x (xs ! i)"
  shows "sorted_wrt R (insert_at pos x xs)"
proof -
  have left: "R a x" if "a \<in> set (take pos xs)" for a
  proof -
    from that obtain i where "i < length (take pos xs)" "a = take pos xs ! i"
      by (auto simp: in_set_conv_nth)
    then show ?thesis using assms(2) [of i] by simp
  qed
  have right: "R x b" if "b \<in> set (drop pos xs)" for b
  proof -
    from that obtain i where "i < length (drop pos xs)" "b = drop pos xs ! i"
      by (auto simp: in_set_conv_nth)
    then show ?thesis using assms(3) [of "pos + i"] by simp
  qed
  have whole: "sorted_wrt R (take pos xs @ drop pos xs)"
    using assms(1) by simp
  then have "sorted_wrt R (take pos xs)" and "sorted_wrt R (drop pos xs)"
    and "\<forall>a \<in> set (take pos xs). \<forall>b \<in> set (drop pos xs). R a b"
    unfolding sorted_wrt_append by blast+
  with left right show ?thesis
    by (auto simp: insert_at_def sorted_wrt_append)
qed




section \<open>Internal loops\<close>

lemma isAllowedLoopRegion_ascending:
  "isAllowedLoopRegion seq i j maxLoop \<Longrightarrow> i \<le> j"
  by (simp add: isAllowedLoopRegion_def split: if_splits)

text \<open>No loop of zero width on both sides passes the first test of the source.\<close>

lemma isValidInternalLoop_zero_width: "\<not> isValidInternalLoop e i1 i1 i2 i2"
  by (simp add: isValidInternalLoop_def)

text \<open>
  Claim C2, on the code. The first base pair of \<open>AGN\<close> and \<open>UCA\<close> taken as both ends
  of a loop: the two pairs are complementary, both regions are allowed loop regions, both
  spans are zero, and \<open>isValidInternalLoop\<close> is false.
\<close>

theorem isValidInternalLoop_rejects_zero_width_loop:
  "areComplementary example_energy 0 0
   \<and> isAllowedLoopRegion (getSequence (accS1 example_energy)) 0 0
        (maxInternalLoopSize1 example_energy)
   \<and> isAllowedLoopRegion (getSequence (accS2 example_energy)) 0 0
        (maxInternalLoopSize2 example_energy)
   \<and> (0 :: size_t) - 0 = 0
   \<and> isValidInternalLoop example_energy 0 0 0 0 = False"
  by (simp add: isValidInternalLoop_def areComplementary_def isAllowedLoopRegion_def
      example_energy_def InteractionEnergyBasePair_def example_areComplementary_def)

text \<open>
  Claim C3. For all indices, \<open>getE_interLeft\<close> of the base-pair model returns \<open>-1\<close>
  when \<open>isValidInternalLoop\<close> holds and the sentinel \<open>E_INF\<close> when it does not; the
  sentinel not being \<open>-1\<close>, it returns \<open>-1\<close> exactly when \<open>isValidInternalLoop\<close> holds.
\<close>

theorem getE_interLeft_follows_isValidInternalLoop:
  "(isValidInternalLoop e i1 j1 i2 j2 \<longrightarrow> BasePair_getE_interLeft e i1 j1 i2 j2 = - 1)
   \<and> (\<not> isValidInternalLoop e i1 j1 i2 j2 \<longrightarrow> BasePair_getE_interLeft e i1 j1 i2 j2 = E_INF e)
   \<and> (E_INF e \<noteq> - 1 \<longrightarrow>
        (BasePair_getE_interLeft e i1 j1 i2 j2 = - 1 \<longleftrightarrow> isValidInternalLoop e i1 j1 i2 j2))"
  by (simp add: BasePair_getE_interLeft_def BasePair_getBestE_interLoop_def BasePair_getE_init_def)

lemma example_valid_loop: "isValidInternalLoop example_energy 0 1 0 1"
  by (simp add: isValidInternalLoop_def areComplementary_def isAllowedLoopRegion_def
      example_energy_def InteractionEnergyBasePair_def example_areComplementary_def)

lemma example_E_INF: "E_INF example_energy = 1000000"
  by (simp add: example_energy_def InteractionEnergyBasePair_def)

theorem getE_interLeft_follows_isValidInternalLoop_witness:
  "isValidInternalLoop example_energy 0 1 0 1
   \<and> BasePair_getE_interLeft example_energy 0 1 0 1 = - 1
   \<and> \<not> isValidInternalLoop example_energy 0 0 0 0
   \<and> BasePair_getE_interLeft example_energy 0 0 0 0 = E_INF example_energy
   \<and> E_INF example_energy \<noteq> - 1
   \<and> \<not> isValidInternalLoop example_energy 0 2 0 2
   \<and> BasePair_getE_interLeft example_energy 0 2 0 2 \<noteq> - 1"
proof -
  have invalid: "\<not> isValidInternalLoop example_energy 0 2 0 2"
    by (simp add: isValidInternalLoop_def areComplementary_def isAllowedLoopRegion_def
        example_energy_def InteractionEnergyBasePair_def example_areComplementary_def)
  have sentinel: "E_INF example_energy \<noteq> - 1"
    by (simp add: example_E_INF)
  from getE_interLeft_follows_isValidInternalLoop [of example_energy 0 1 0 1]
  have "BasePair_getE_interLeft example_energy 0 1 0 1 = - 1"
    using example_valid_loop by simp
  moreover from getE_interLeft_follows_isValidInternalLoop [of example_energy 0 0 0 0]
  have "BasePair_getE_interLeft example_energy 0 0 0 0 = E_INF example_energy"
    using isValidInternalLoop_zero_width [of example_energy 0 0] by simp
  moreover from getE_interLeft_follows_isValidInternalLoop [of example_energy 0 2 0 2]
  have "BasePair_getE_interLeft example_energy 0 2 0 2 \<noteq> - 1"
    using invalid sentinel by simp
  ultimately show ?thesis
    using example_valid_loop isValidInternalLoop_zero_width [of example_energy 0 0]
      invalid sentinel
    by simp
qed

text \<open>
  Claim C10. For indices within the two sequences with \<open>j1 < i1\<close> or \<open>j2 < i2\<close>,
  \<open>isValidInternalLoop\<close> is false and \<open>getE_interLeft\<close> of the base-pair model returns
  the sentinel, although the difference of a descending span wraps around to the positive
  value \<open>2\<^sup>6\<^sup>4 - (i - j)\<close> and so passes the test \<open>j - i > 0\<close>.
\<close>

theorem descending_span_is_no_internal_loop:
  assumes "unat i1 < length (getSequence (accS1 e))"
    and "unat j1 < length (getSequence (accS1 e))"
    and "unat i2 < length (getSequence (accS2 e))"
    and "unat j2 < length (getSequence (accS2 e))"
    and "j1 < i1 \<or> j2 < i2"
  shows "\<not> isValidInternalLoop e i1 j1 i2 j2
       \<and> BasePair_getE_interLeft e i1 j1 i2 j2 = E_INF e
       \<and> (j1 < i1 \<longrightarrow> j1 - i1 > 0 \<and> unat (j1 - i1) = 2 ^ 64 - (unat i1 - unat j1))
       \<and> (j2 < i2 \<longrightarrow> j2 - i2 > 0 \<and> unat (j2 - i2) = 2 ^ 64 - (unat i2 - unat j2))"
proof -
  have wrap: "j - i > 0 \<and> unat (j - i) = 2 ^ 64 - (unat i - unat j)" if "j < i" for i j :: size_t
  proof -
    from that have lt: "unat j < unat i" by (simp add: word_less_nat_alt)
    have bound: "unat i < 2 ^ 64" using unsigned_less [of i] by simp
    from lt have "unat (j - i) = unat j + 2 ^ 64 - unat i"
      by (simp add: unat_sub_if_size word_size)
    with lt bound have val: "unat (j - i) = 2 ^ 64 - (unat i - unat j)" by simp
    with lt bound have "unat (j - i) \<noteq> 0" by simp
    then have "j - i \<noteq> 0" by (simp add: unat_eq_zero)
    with val show ?thesis by (simp add: word_greater_zero_iff)
  qed
  have "\<not> isValidInternalLoop e i1 j1 i2 j2"
  proof
    assume valid: "isValidInternalLoop e i1 j1 i2 j2"
    then have "i1 \<le> j1" and "i2 \<le> j2"
      by (auto simp: isValidInternalLoop_def dest: isAllowedLoopRegion_ascending)
    with assms(5) show False by auto
  qed
  then show ?thesis
    using wrap [of j1 i1] wrap [of j2 i2] by (simp add: BasePair_getE_interLeft_def)
qed

theorem descending_span_is_no_internal_loop_witness:
  "unat (1 :: size_t) < length (getSequence (accS1 example_energy))
   \<and> unat (0 :: size_t) < length (getSequence (accS1 example_energy))
   \<and> unat (0 :: size_t) < length (getSequence (accS2 example_energy))
   \<and> unat (1 :: size_t) < length (getSequence (accS2 example_energy))
   \<and> ((0 :: size_t) < 1 \<or> (1 :: size_t) < 0)
   \<and> \<not> isValidInternalLoop example_energy 1 0 0 1
   \<and> BasePair_getE_interLeft example_energy 1 0 0 1 = E_INF example_energy
   \<and> (0 :: size_t) - 1 > 0
   \<and> unat ((0 :: size_t) - 1) = 2 ^ 64 - (unat (1 :: size_t) - unat (0 :: size_t))"
proof -
  have in1: "unat (1 :: size_t) < length (getSequence (accS1 example_energy))"
    and in2: "unat (0 :: size_t) < length (getSequence (accS1 example_energy))"
    and in3: "unat (0 :: size_t) < length (getSequence (accS2 example_energy))"
    and in4: "unat (1 :: size_t) < length (getSequence (accS2 example_energy))"
    by (simp_all add: example_energy_def InteractionEnergyBasePair_def)
  have desc: "(0 :: size_t) < 1 \<or> (1 :: size_t) < 0" by simp
  from descending_span_is_no_internal_loop [OF in1 in2 in3 in4 desc] in1 in2 in3 in4
  show ?thesis by simp
qed

section \<open>The overall energy\<close>

lemma clamped_probability:
  "0 \<le> (if c then max 0 (min 1 w) else (1 :: real))
   \<and> (if c then max 0 (min 1 w) else (1 :: real)) \<le> 1"
  by simp

lemma getPr_danglingLeft_probability:
  "0 \<le> getPr_danglingLeft e i1 j1 i2 j2 \<and> getPr_danglingLeft e i1 j1 i2 j2 \<le> 1"
  unfolding getPr_danglingLeft_def Let_def
  using clamped_probability mult_le_one mult_nonneg_nonneg by meson

lemma getPr_danglingRight_probability:
  "0 \<le> getPr_danglingRight e i1 j1 i2 j2 \<and> getPr_danglingRight e i1 j1 i2 j2 \<le> 1"
  unfolding getPr_danglingRight_def Let_def
  using clamped_probability mult_le_one mult_nonneg_nonneg by meson

lemma getPr_danglingLeft_formula:
  "getPr_danglingLeft e i1 j1 i2 j2
     = (if 0 < i1
        then max 0 (min 1 (exp (- (getED1 e (i1 - 1) j1 - getED1 e i1 j1) / getRT e)))
        else 1)
       * (if 0 < i2
          then max 0 (min 1 (exp (- (getED2 e (i2 - 1) j2 - getED2 e i2 j2) / getRT e)))
          else 1)"
  by (simp add: getPr_danglingLeft_def getBoltzmannWeight_def Let_def)

lemma getPr_danglingRight_formula:
  "getPr_danglingRight e i1 j1 i2 j2
     = (if j1 + 1 < size1 e
        then max 0 (min 1 (exp (- (getED1 e i1 (j1 + 1) - getED1 e i1 j1) / getRT e)))
        else 1)
       * (if j2 + 1 < size2 e
          then max 0 (min 1 (exp (- (getED2 e i2 (j2 + 1) - getED2 e i2 j2) / getRT e)))
          else 1)"
  by (simp add: getPr_danglingRight_def getBoltzmannWeight_def Let_def)

lemma costly_flank_lowers_weight:
  fixes d rt w :: real
  assumes "0 < rt" and "0 < d" and "0 \<le> w" and "w \<le> 1"
  shows "max 0 (min 1 (exp (- d / rt))) * w < 1"
proof -
  define x where "x = exp (- d / rt)"
  from assms(1,2) have "- d / rt < 0" by (simp add: divide_neg_pos)
  then have lt: "x < 1" by (simp add: x_def)
  have pos: "0 < x" by (simp add: x_def)
  from lt pos have eq: "max 0 (min 1 x) = x" by simp
  have "x * w \<le> x * 1"
    using assms(4) pos by (intro mult_left_mono) simp_all
  with lt have "x * w < 1" by simp
  then show ?thesis unfolding x_def [symmetric] eq .
qed

lemma getPr_danglingLeft_below_one:
  assumes "0 < i1" and "0 < getRT e" and "getED1 e i1 j1 < getED1 e (i1 - 1) j1"
  shows "getPr_danglingLeft e i1 j1 i2 j2 < 1"
proof -
  define w where "w = (if 0 < i2
          then max 0 (min 1 (exp (- (getED2 e (i2 - 1) j2 - getED2 e i2 j2) / getRT e)))
          else 1 :: real)"
  have w: "0 \<le> w" "w \<le> 1" by (simp_all add: w_def)
  from assms(3) have d: "0 < getED1 e (i1 - 1) j1 - getED1 e i1 j1" by simp
  from costly_flank_lowers_weight [OF assms(2) d w] assms(1)
  show ?thesis unfolding getPr_danglingLeft_formula w_def by simp
qed

lemma getPr_danglingRight_below_one:
  assumes "j1 + 1 < size1 e" and "0 < getRT e" and "getED1 e i1 j1 < getED1 e i1 (j1 + 1)"
  shows "getPr_danglingRight e i1 j1 i2 j2 < 1"
proof -
  define w where "w = (if j2 + 1 < size2 e
          then max 0 (min 1 (exp (- (getED2 e i2 (j2 + 1) - getED2 e i2 j2) / getRT e)))
          else 1 :: real)"
  have w: "0 \<le> w" "w \<le> 1" by (simp_all add: w_def)
  from assms(3) have d: "0 < getED1 e i1 (j1 + 1) - getED1 e i1 j1" by simp
  from costly_flank_lowers_weight [OF assms(2) d w] assms(1)
  show ?thesis unfolding getPr_danglingRight_formula w_def by simp
qed

text \<open>
  Claim C5. For all indices and every energy \<open>hybridE\<close>: when \<open>hybridE\<close> is infinite
  (the test \<open>E_isNotINF\<close> fails on it; so for the sentinel \<open>E_INF\<close> itself, if the test
  fails on it) \<open>getE\<close> returns the sentinel \<open>E_INF\<close>; otherwise it returns
  \<open>hybridE\<close> plus the two accessibility penalties, the left dangling-end energy times
  \<open>Pr_danglingLeft\<close>, the right dangling-end energy times \<open>Pr_danglingRight\<close>, and the
  two end penalties. Each weight is the product, over the two sequences, of the Boltzmann
  weight of the accessibility cost of the flanking position, clamped to between 0 and 1, or
  of 1 where the sequence has no flanking position. So the weights are probabilities, and
  a weight is below 1, the dangling-end energy entering in part only, as soon as the
  flanking position of the first sequence costs accessibility at a positive temperature.
\<close>

theorem getE_weights_dangling_ends:
  "(\<not> E_isNotINF e hybridE \<longrightarrow> getE e i1 j1 i2 j2 hybridE = E_INF e)
   \<and> (\<not> E_isNotINF e (E_INF e) \<longrightarrow> getE e i1 j1 i2 j2 (E_INF e) = E_INF e)
   \<and> (E_isNotINF e hybridE \<longrightarrow>
        getE e i1 j1 i2 j2 hybridE
          = hybridE + getED1 e i1 j1 + getED2 e i2 j2
            + getE_danglingLeft e i1 i2 * getPr_danglingLeft e i1 j1 i2 j2
            + getE_danglingRight e j1 j2 * getPr_danglingRight e i1 j1 i2 j2
            + getE_endLeft e i1 i2 + getE_endRight e j1 j2)
   \<and> getPr_danglingLeft e i1 j1 i2 j2
       = (if 0 < i1
          then max 0 (min 1 (exp (- (getED1 e (i1 - 1) j1 - getED1 e i1 j1) / getRT e)))
          else 1)
         * (if 0 < i2
            then max 0 (min 1 (exp (- (getED2 e (i2 - 1) j2 - getED2 e i2 j2) / getRT e)))
            else 1)
   \<and> getPr_danglingRight e i1 j1 i2 j2
       = (if j1 + 1 < size1 e
          then max 0 (min 1 (exp (- (getED1 e i1 (j1 + 1) - getED1 e i1 j1) / getRT e)))
          else 1)
         * (if j2 + 1 < size2 e
            then max 0 (min 1 (exp (- (getED2 e i2 (j2 + 1) - getED2 e i2 j2) / getRT e)))
            else 1)
   \<and> (0 < i1 \<and> 0 < getRT e \<and> getED1 e i1 j1 < getED1 e (i1 - 1) j1
        \<longrightarrow> getPr_danglingLeft e i1 j1 i2 j2 < 1)
   \<and> (j1 + 1 < size1 e \<and> 0 < getRT e \<and> getED1 e i1 j1 < getED1 e i1 (j1 + 1)
        \<longrightarrow> getPr_danglingRight e i1 j1 i2 j2 < 1)
   \<and> 0 \<le> getPr_danglingLeft e i1 j1 i2 j2 \<and> getPr_danglingLeft e i1 j1 i2 j2 \<le> 1
   \<and> 0 \<le> getPr_danglingRight e i1 j1 i2 j2 \<and> getPr_danglingRight e i1 j1 i2 j2 \<le> 1"
proof -
  have sentinel: "\<not> E_isNotINF e h \<longrightarrow> getE e i1 j1 i2 j2 h = E_INF e" for h
    by (simp add: getE_def)
  have finite: "E_isNotINF e hybridE \<longrightarrow>
        getE e i1 j1 i2 j2 hybridE
          = hybridE + getED1 e i1 j1 + getED2 e i2 j2
            + getE_danglingLeft e i1 i2 * getPr_danglingLeft e i1 j1 i2 j2
            + getE_danglingRight e j1 j2 * getPr_danglingRight e i1 j1 i2 j2
            + getE_endLeft e i1 i2 + getE_endRight e j1 j2"
    by (simp add: getE_def)
  note left = getPr_danglingLeft_formula [of e i1 j1 i2 j2]
  note right = getPr_danglingRight_formula [of e i1 j1 i2 j2]
  have left_lt: "0 < i1 \<and> 0 < getRT e \<and> getED1 e i1 j1 < getED1 e (i1 - 1) j1
        \<longrightarrow> getPr_danglingLeft e i1 j1 i2 j2 < 1"
    using getPr_danglingLeft_below_one [of i1 e j1 i2 j2] by blast
  have right_lt: "j1 + 1 < size1 e \<and> 0 < getRT e \<and> getED1 e i1 j1 < getED1 e i1 (j1 + 1)
        \<longrightarrow> getPr_danglingRight e i1 j1 i2 j2 < 1"
    using getPr_danglingRight_below_one [of j1 e i1 i2 j2] by blast
  from sentinel [of hybridE] sentinel [of "E_INF e"] finite left right left_lt right_lt
    getPr_danglingLeft_probability [of e i1 j1 i2 j2]
    getPr_danglingRight_probability [of e i1 j1 i2 j2]
  show ?thesis by blast
qed


lemma example_dangling_fields:
  "E_INF example_energy_dangling = 1000000"
  "E_isNotINF example_energy_dangling = (\<lambda>x. x < 1000000)"
  "getED1 example_energy_dangling i1 j1 = 3"
  "getED2 example_energy_dangling i2 j2 = 2"
  "getE_danglingLeft example_energy_dangling i1 i2 = - 1"
  "getE_danglingRight example_energy_dangling j1 j2 = - 2"
  "getE_endLeft example_energy_dangling i1 i2 = 1 / 2"
  "getE_endRight example_energy_dangling j1 j2 = 1 / 4"
  by (simp_all add: example_energy_dangling_def example_energy_def
      InteractionEnergyBasePair_def getED1_def getED2_def)

lemma example_dangling_probabilities:
  "getPr_danglingLeft example_energy_dangling i1 j1 i2 j2 = 1"
  "getPr_danglingRight example_energy_dangling i1 j1 i2 j2 = 1"
  by (simp_all add: getPr_danglingLeft_def getPr_danglingRight_def getBoltzmannWeight_def
      example_dangling_fields)

lemma example_varying_fields:
  "E_INF example_energy_varying = 1000000"
  "E_isNotINF example_energy_varying = (\<lambda>x. x < 1000000)"
  "getED1 example_energy_varying i1 j1 = real (unat j1) - real (unat i1) + 1"
  "getED2 example_energy_varying i2 j2 = 2"
  "getE_danglingLeft example_energy_varying i1 i2 = - 1"
  "getE_danglingRight example_energy_varying j1 j2 = - 2"
  "getE_endLeft example_energy_varying i1 i2 = 1 / 2"
  "getE_endRight example_energy_varying j1 j2 = 1 / 4"
  "getRT example_energy_varying = 1"
  "size1 example_energy_varying = 3"
  "size2 example_energy_varying = 3"
  by (simp_all add: example_energy_varying_def example_energy_dangling_def example_energy_def
      InteractionEnergyBasePair_def getED1_def getED2_def size1_def size2_def)

theorem getE_weights_dangling_ends_witness:
  "E_isNotINF example_energy_varying (- 4)
   \<and> getE example_energy_varying 1 1 0 2 (- 4) = - 1 / 4 - 3 * exp (- 1)
   \<and> getPr_danglingLeft example_energy_varying 1 1 0 2 = exp (- 1)
   \<and> getPr_danglingRight example_energy_varying 1 1 0 2 = exp (- 1)
   \<and> (0 :: size_t) < 1 \<and> 0 < getRT example_energy_varying
   \<and> getED1 example_energy_varying 1 1 < getED1 example_energy_varying (1 - 1) 1
   \<and> getPr_danglingLeft example_energy_varying 1 1 0 2 < 1
   \<and> (1 :: size_t) + 1 < size1 example_energy_varying
   \<and> getED1 example_energy_varying 1 1 < getED1 example_energy_varying 1 (1 + 1)
   \<and> getPr_danglingRight example_energy_varying 1 1 0 2 < 1
   \<and> \<not> E_isNotINF example_energy_varying (E_INF example_energy_varying)
   \<and> getE example_energy_varying 1 1 0 2 (E_INF example_energy_varying)
       = E_INF example_energy_varying"
proof -
  note fields = example_varying_fields
  have finite: "E_isNotINF example_energy_varying (- 4)"
    and infinite: "\<not> E_isNotINF example_energy_varying (E_INF example_energy_varying)"
    by (simp_all add: fields)
  have left_hyp: "(0 :: size_t) < 1" "0 < getRT example_energy_varying"
    "getED1 example_energy_varying 1 1 < getED1 example_energy_varying (1 - 1) 1"
    by (simp_all add: fields)
  have right_hyp: "(1 :: size_t) + 1 < size1 example_energy_varying"
    "getED1 example_energy_varying 1 1 < getED1 example_energy_varying 1 (1 + 1)"
    by (simp_all add: fields)
  note inst = getE_weights_dangling_ends [of example_energy_varying "- 4" 1 1 0 2]
  from inst have left: "getPr_danglingLeft example_energy_varying 1 1 0 2 = exp (- 1)"
    by (simp add: fields)
  from inst have right: "getPr_danglingRight example_energy_varying 1 1 0 2 = exp (- 1)"
    by (simp add: fields)
  from inst finite
  have "getE example_energy_varying 1 1 0 2 (- 4)
          = - 4 + getED1 example_energy_varying 1 1 + getED2 example_energy_varying 0 2
            + getE_danglingLeft example_energy_varying 1 0
                * getPr_danglingLeft example_energy_varying 1 1 0 2
            + getE_danglingRight example_energy_varying 1 2
                * getPr_danglingRight example_energy_varying 1 1 0 2
            + getE_endLeft example_energy_varying 1 0 + getE_endRight example_energy_varying 1 2"
    by blast
  then have val: "getE example_energy_varying 1 1 0 2 (- 4) = - 1 / 4 - 3 * exp (- 1)"
    unfolding left right by (simp add: fields)
  from inst left_hyp have left_lt: "getPr_danglingLeft example_energy_varying 1 1 0 2 < 1"
    by blast
  from inst left_hyp(2) right_hyp
  have right_lt: "getPr_danglingRight example_energy_varying 1 1 0 2 < 1"
    by blast
  from getE_weights_dangling_ends
         [of example_energy_varying "E_INF example_energy_varying" 1 1 0 2] infinite
  have at_sentinel: "getE example_energy_varying 1 1 0 2 (E_INF example_energy_varying)
               = E_INF example_energy_varying"
    by blast
  from finite val left right left_hyp left_lt right_hyp right_lt infinite at_sentinel
  show ?thesis by blast
qed

subsection \<open>The four lanes against the scalar function\<close>

text \<open>
  What a lane of \<open>getE_SSE\<close> holds: the sentinel where the lane of \<open>hybridE\<close> equals the
  sentinel, and elsewhere the sum of the penalties and the weighted dangling-end energies
  of that lane. The lane of \<open>hybridE\<close> itself is not a summand.
\<close>

lemma getE_SSE_lane:
  assumes "k < 4"
  shows "lane (getE_SSE e i1 j1 i2 j2 hybridE) k =
           (if lane hybridE k = E_INF e then E_INF e
            else getED1 e (lane i1 k) (lane j1 k) + getED2 e (lane i2 k) (lane j2 k)
                 + getE_endLeft e (lane i1 k) (lane i2 k)
                 + getE_endRight e (lane j1 k) (lane j2 k)
                 + (getE_danglingLeft e (lane i1 k) (lane i2 k)
                      * getPr_danglingLeft e (lane i1 k) (lane j1 k) (lane i2 k) (lane j2 k)
                    + getE_danglingRight e (lane j1 k) (lane j2 k)
                      * getPr_danglingRight e (lane i1 k) (lane j1 k) (lane i2 k) (lane j2 k)))"
proof -
  obtain h0 h1 h2 h3 where h: "hybridE = M128 h0 h1 h2 h3" by (cases hybridE)
  from assms have "k = 0 \<or> k = 1 \<or> k = 2 \<or> k = 3" by auto
  then show ?thesis
    unfolding getE_SSE_def Let_def h mm_add_ps_def mm_mul_ps_def mm_cmpeq_ps_def
      mm_and_ps_def mm_andnot_ps_def mm_or_ps_def
    by (elim disjE) simp_all
qed

text \<open>
  Claim C1, on the code. Four copies of the candidate \<open>(0, 2, 0, 2)\<close>, the first three
  with the hybridization energy \<open>-4\<close> and the last with the sentinel. The scalar function
  gives \<open>-5/4\<close> for the finite candidate; the first lane of the vector function gives
  \<open>11/4\<close>, which is \<open>-5/4\<close> without the \<open>-4\<close>. The lane of the sentinel agrees with
  the scalar function.
\<close>

theorem getE_SSE_omits_hybridE:
  "getE example_energy_dangling 0 2 0 2 (- 4) = - 5 / 4
   \<and> lane (getE_SSE example_energy_dangling (M128 0 0 0 0) (M128 2 2 2 2) (M128 0 0 0 0)
             (M128 2 2 2 2) (M128 (- 4) (- 4) (- 4) 1000000)) 0 = 11 / 4
   \<and> getE example_energy_dangling 0 2 0 2 1000000 = 1000000
   \<and> lane (getE_SSE example_energy_dangling (M128 0 0 0 0) (M128 2 2 2 2) (M128 0 0 0 0)
             (M128 2 2 2 2) (M128 (- 4) (- 4) (- 4) 1000000)) 3 = 1000000"
  by (simp add: getE_SSE_lane getE_def example_dangling_fields example_dangling_probabilities)

section \<open>Reports to the interaction list\<close>

text \<open>
  Claim C7. \<open>add\<close> of an empty interaction returns; in the new state the count of
  reported interactions is one more than before, and the stored sequence and the capacity
  are what they were.
\<close>

theorem add_empty_interaction_only_counts:
  assumes "isEmpty interaction"
  shows "\<exists>h'. add isEmpty rank interaction h = Returned h'
           \<and> reportedInteractions h' = reportedInteractions h + 1
           \<and> storage h' = storage h
           \<and> maxToStore h' = maxToStore h"
  using assms by (simp add: add_def)

theorem add_empty_interaction_only_counts_witness:
  "snd (0 :: real, [] :: (nat \<times> nat) list) = []
   \<and> (\<exists>h'. add (\<lambda>x. snd x = []) fst (0 :: real, [] :: (nat \<times> nat) list)
              \<lparr>storage = [(- 3, [(1, 2)])], maxToStore = 1, reportedInteractions = 7\<rparr>
            = Returned h'
          \<and> reportedInteractions h' = 7 + 1
          \<and> storage h' = [(- 3, [(1, 2)])]
          \<and> maxToStore h' = 1)"
proof -
  have empty: "(\<lambda>x :: real \<times> (nat \<times> nat) list. snd x = []) (0, [])" by simp
  from add_empty_interaction_only_counts
    [of "\<lambda>x :: real \<times> (nat \<times> nat) list. snd x = []" "(0, [])", OF empty,
     of fst "\<lparr>storage = [(- 3, [(1, 2)])], maxToStore = 1, reportedInteractions = 7\<rparr>"]
  show ?thesis by simp
qed

text \<open>
  Claim C9. \<open>add\<close> of an interaction range, whatever the range and the state, throws the
  error that says the operation is not implemented; it does not return, and the state it
  leaves is the state it found: the same stored interactions and the same count.
\<close>

theorem add_range_is_not_supported:
  "add_range rng h
     = Thrown (NotImplemented
         ''OutputHandlerInteractionList::add( const InteractionRange & range )'') h
   \<and> (\<forall>h'. add_range rng h \<noteq> Returned h')
   \<and> add_range rng h \<noteq> Undefined"
  by (simp add: add_range_def)

subsection \<open>The best interactions are kept\<close>

lemma lower_bound_rank:
  assumes "sorted_wrt (lessThan_StorageContainer rank) st"
  shows "lower_bound (lessThan_StorageContainer rank) st x \<le> length st"
    and "\<And>i. i < lower_bound (lessThan_StorageContainer rank) st x \<Longrightarrow> rank (st ! i) < rank x"
    and "\<And>i. lower_bound (lessThan_StorageContainer rank) st x \<le> i \<Longrightarrow> i < length st
           \<Longrightarrow> rank x \<le> rank (st ! i)"
proof -
  define P where "P = (\<lambda>e. lessThan_StorageContainer rank e x)"
  have P_iff: "P e \<longleftrightarrow> rank e < rank x" for e
    by (simp add: P_def lessThan_StorageContainer_def)
  have part: "\<And>i j. i \<le> j \<Longrightarrow> j < length st \<Longrightarrow> P (st ! j) \<Longrightarrow> P (st ! i)"
  proof -
    fix i j assume ij: "i \<le> j" and j: "j < length st" and Pj: "P (st ! j)"
    show "P (st ! i)"
    proof (cases "i = j")
      case True
      with Pj show ?thesis by simp
    next
      case False
      with ij have "i < j" by simp
      with assms j have "rank (st ! i) < rank (st ! j)"
        by (simp add: sorted_wrt_iff_nth_less lessThan_StorageContainer_def)
      with Pj show ?thesis by (simp add: P_iff)
    qed
  qed
  have eq: "lower_bound (lessThan_StorageContainer rank) st x = partition_search P st 0 (length st)"
    by (simp add: lower_bound_def P_def)
  show "lower_bound (lessThan_StorageContainer rank) st x \<le> length st"
    unfolding eq by (rule partition_search_whole(1)) (rule part)
  show "\<And>i. i < lower_bound (lessThan_StorageContainer rank) st x \<Longrightarrow> rank (st ! i) < rank x"
  proof -
    fix i assume "i < lower_bound (lessThan_StorageContainer rank) st x"
    then have "i < partition_search P st 0 (length st)" by (simp add: eq)
    with part have "P (st ! i)" by (rule partition_search_whole(2))
    then show "rank (st ! i) < rank x" by (simp add: P_iff)
  qed
  show "\<And>i. lower_bound (lessThan_StorageContainer rank) st x \<le> i \<Longrightarrow> i < length st
           \<Longrightarrow> rank x \<le> rank (st ! i)"
  proof -
    fix i assume "lower_bound (lessThan_StorageContainer rank) st x \<le> i" and i: "i < length st"
    then have "partition_search P st 0 (length st) \<le> i" by (simp add: eq)
    with part have "\<not> P (st ! i)" using i by (rule partition_search_whole(3))
    then show "rank x \<le> rank (st ! i)" by (simp add: P_iff)
  qed
qed


lemma set_insert_at: "set (insert_at pos x xs) = insert x (set xs)"
proof -
  have "set (insert_at pos x xs) = set_mset (mset (insert_at pos x xs))" by simp
  also have "\<dots> = insert x (set xs)" unfolding mset_insert_at by simp
  finally show ?thesis .
qed

lemma length_insert_at: "length (insert_at pos x xs) = Suc (length xs)"
proof -
  have "size (mset (insert_at pos x xs)) = Suc (size (mset xs))"
    unfolding mset_insert_at by simp
  then show ?thesis by simp
qed

lemma last_ranks_worst:
  assumes "sorted_wrt (lessThan_StorageContainer rank) st" and "s \<in> set st"
  shows "rank s \<le> rank (last st)"
proof -
  from assms(2) obtain i where i: "i < length st" and s: "s = st ! i"
    by (auto simp: in_set_conv_nth)
  then have ne: "st \<noteq> []" by auto
  show ?thesis
  proof (cases "i = length st - 1")
    case True
    with s ne show ?thesis by (simp add: last_conv_nth)
  next
    case False
    with i have "i < length st - 1" "length st - 1 < length st" by simp_all
    with assms(1) have "rank (st ! i) < rank (st ! (length st - 1))"
      by (simp add: sorted_wrt_iff_nth_less lessThan_StorageContainer_def)
    with s ne show ?thesis by (simp add: last_conv_nth)
  qed
qed

lemma butlast_ranks_better:
  assumes "sorted_wrt (lessThan_StorageContainer rank) st" and "s \<in> set (butlast st)"
  shows "rank s < rank (last st)"
proof -
  from assms(2) obtain i where i: "i < length (butlast st)" and s: "s = butlast st ! i"
    by (auto simp: in_set_conv_nth)
  then have ne: "st \<noteq> []" by auto
  from i have "i < length st - 1" "length st - 1 < length st" by simp_all
  with assms(1) have "rank (st ! i) < rank (st ! (length st - 1))"
    by (simp add: sorted_wrt_iff_nth_less lessThan_StorageContainer_def)
  with s i ne show ?thesis by (simp add: last_conv_nth nth_butlast)
qed

lemma keeps_best_duplicate:
  assumes "keeps_best rank K S st" and "rank x \<in> rank ` set st"
  shows "keeps_best rank K (insert x S) st"
  using assms unfolding keeps_best_def by blast

lemma keeps_best_worse:
  assumes kept: "keeps_best rank K S st" and full: "length st = K" and ne: "st \<noteq> []"
    and worse: "\<not> rank x < rank (last st)"
  shows "keeps_best rank K (insert x S) st"
proof -
  from kept have sorted: "sorted_wrt (lessThan_StorageContainer rank) st"
    by (simp add: keeps_best_def)
  have "rank x \<in> rank ` set st \<or> (length st = K \<and> (\<forall>s \<in> set st. rank s < rank x))"
  proof (cases "rank x \<in> rank ` set st")
    case True
    then show ?thesis by simp
  next
    case False
    have "rank s < rank x" if "s \<in> set st" for s
    proof -
      from last_ranks_worst [OF sorted that] worse have "rank s \<le> rank x" by simp
      moreover from that False have "rank s \<noteq> rank x" by (metis image_eqI)
      ultimately show ?thesis by simp
    qed
    with full show ?thesis by simp
  qed
  with kept show ?thesis unfolding keeps_best_def by blast
qed

lemma insert_at_rank_sorted:
  assumes sorted: "sorted_wrt (lessThan_StorageContainer rank) st"
    and below: "\<And>i. i < p \<Longrightarrow> i < length st \<Longrightarrow> rank (st ! i) < rank x"
    and at: "p < length st \<Longrightarrow> rank x < rank (st ! p)"
  shows "sorted_wrt (lessThan_StorageContainer rank) (insert_at p x st)"
proof (rule sorted_wrt_insert_at [OF sorted])
  show "\<And>i. i < p \<Longrightarrow> i < length st \<Longrightarrow> lessThan_StorageContainer rank (st ! i) x"
    using below by (simp add: lessThan_StorageContainer_def)
  show "\<And>i. p \<le> i \<Longrightarrow> i < length st \<Longrightarrow> lessThan_StorageContainer rank x (st ! i)"
  proof -
    fix i assume pi: "p \<le> i" and i: "i < length st"
    then have p: "p < length st" by simp
    show "lessThan_StorageContainer rank x (st ! i)"
    proof (cases "p = i")
      case True
      with at [OF p] show ?thesis by (simp add: lessThan_StorageContainer_def)
    next
      case False
      with pi have "p < i" by simp
      with sorted i have "rank (st ! p) < rank (st ! i)"
        by (simp add: sorted_wrt_iff_nth_less lessThan_StorageContainer_def)
      with at [OF p] show ?thesis by (simp add: lessThan_StorageContainer_def)
    qed
  qed
qed

lemma keeps_best_room:
  assumes kept: "keeps_best rank K S st" and room: "length st < K"
    and below: "\<And>i. i < p \<Longrightarrow> i < length st \<Longrightarrow> rank (st ! i) < rank x"
    and at: "p < length st \<Longrightarrow> rank x < rank (st ! p)"
  shows "keeps_best rank K (insert x S) (insert_at p x st)"
proof -
  from kept have sorted: "sorted_wrt (lessThan_StorageContainer rank) st"
    and sub: "set st \<subseteq> S"
    and all: "\<forall>y \<in> S. rank y \<in> rank ` set st
                \<or> (length st = K \<and> (\<forall>x \<in> set st. rank x < rank y))"
    by (simp_all add: keeps_best_def)
  have "sorted_wrt (lessThan_StorageContainer rank) (insert_at p x st)"
    using sorted below at by (rule insert_at_rank_sorted)
  moreover have "length (insert_at p x st) \<le> K"
    using room by (simp add: length_insert_at)
  moreover have "set (insert_at p x st) \<subseteq> insert x S"
    using sub by (auto simp: set_insert_at)
  moreover have "\<forall>y \<in> insert x S. rank y \<in> rank ` set (insert_at p x st)"
    using all room by (auto simp: set_insert_at)
  ultimately show ?thesis unfolding keeps_best_def by blast
qed

lemma keeps_best_evict:
  assumes kept: "keeps_best rank K S st" and full: "length st = K" and ne: "st \<noteq> []"
    and better: "rank x < rank (last st)"
    and below: "\<And>i. i < p \<Longrightarrow> i < length st \<Longrightarrow> rank (st ! i) < rank x"
    and at: "rank x < rank (st ! p)" and p: "p < length st"
  shows "keeps_best rank K (insert x S) (insert_at p x (butlast st))"
proof -
  from kept have sorted: "sorted_wrt (lessThan_StorageContainer rank) st"
    and sub: "set st \<subseteq> S"
    and all: "\<forall>y \<in> S. rank y \<in> rank ` set st
                \<or> (length st = K \<and> (\<forall>x \<in> set st. rank x < rank y))"
    by (simp_all add: keeps_best_def)
  let ?st' = "insert_at p x (butlast st)"
  have sorted_butlast: "sorted_wrt (lessThan_StorageContainer rank) (butlast st)"
    using sorted by (simp add: butlast_conv_take sorted_wrt_take)
  have "sorted_wrt (lessThan_StorageContainer rank) ?st'"
  proof (rule insert_at_rank_sorted [OF sorted_butlast])
    show "\<And>i. i < p \<Longrightarrow> i < length (butlast st) \<Longrightarrow> rank (butlast st ! i) < rank x"
      using below by (simp add: nth_butlast)
    show "p < length (butlast st) \<Longrightarrow> rank x < rank (butlast st ! p)"
      using at by (simp add: nth_butlast)
  qed
  moreover have len: "length ?st' = K"
  proof -
    from ne have "0 < length st" by simp
    with full show ?thesis by (simp add: length_insert_at)
  qed
  moreover have "set ?st' \<subseteq> insert x S"
    using sub by (auto simp: set_insert_at dest: in_set_butlastD)
  moreover have "\<forall>y \<in> insert x S. rank y \<in> rank ` set ?st'
                   \<or> (length ?st' = K \<and> (\<forall>s \<in> set ?st'. rank s < rank y))"
  proof
    fix y assume y: "y \<in> insert x S"
    have split: "set st = insert (last st) (set (butlast st))"
      using ne by (metis append_butlast_last_id list.simps(15) rotate1.simps(2) set_rotate1)
    have worse_than_all: "\<forall>s \<in> set ?st'. rank s < rank y" if "rank (last st) \<le> rank y"
    proof
      fix s assume "s \<in> set ?st'"
      then have "s = x \<or> s \<in> set (butlast st)" by (simp add: set_insert_at)
      then have "rank s < rank (last st)"
        using better butlast_ranks_better [OF sorted] by blast
      with that show "rank s < rank y" by simp
    qed
    show "rank y \<in> rank ` set ?st' \<or> (length ?st' = K \<and> (\<forall>s \<in> set ?st'. rank s < rank y))"
    proof (cases "y = x")
      case True
      then show ?thesis by (simp add: set_insert_at)
    next
      case False
      with y have "y \<in> S" by simp
      with all have "rank y \<in> rank ` set st \<or> (\<forall>s \<in> set st. rank s < rank y)" by blast
      then show ?thesis
      proof
        assume "rank y \<in> rank ` set st"
        then have "rank y = rank (last st) \<or> rank y \<in> rank ` set (butlast st)"
          unfolding split by auto
        then show ?thesis
        proof
          assume "rank y = rank (last st)"
          then have "rank (last st) \<le> rank y" by simp
          from worse_than_all [OF this] len show ?thesis by simp
        next
          assume "rank y \<in> rank ` set (butlast st)"
          then show ?thesis by (auto simp: set_insert_at)
        qed
      next
        assume "\<forall>s \<in> set st. rank s < rank y"
        with ne have "rank (last st) \<le> rank y" by (simp add: less_imp_le)
        from worse_than_all [OF this] len show ?thesis by simp
      qed
    qed
  qed
  ultimately show ?thesis unfolding keeps_best_def by blast
qed


lemma add_update_room:
  assumes "length (storage h) < unat (maxToStore h)"
  shows "add_update rank x h =
           (if lower_bound (lessThan_StorageContainer rank) (storage h) x = length (storage h)
               \<or> rank x < rank (storage h ! lower_bound (lessThan_StorageContainer rank) (storage h) x)
            then Returned (h\<lparr>storage :=
                   insert_at (lower_bound (lessThan_StorageContainer rank) (storage h) x) x
                     (storage h)\<rparr>)
            else Returned h)"
  using assms by (simp add: add_update_def Let_def lessThan_StorageContainer_def)

lemma add_update_full:
  assumes "unat (maxToStore h) \<le> length (storage h)" and "storage h \<noteq> []"
    and "lower_bound (lessThan_StorageContainer rank) (storage h) x < length (storage h)"
  shows "add_update rank x h =
           (if rank x < rank (storage h ! lower_bound (lessThan_StorageContainer rank) (storage h) x)
            then Returned (h\<lparr>storage :=
                   insert_at (lower_bound (lessThan_StorageContainer rank) (storage h) x) x
                     (butlast (storage h))\<rparr>)
            else Returned h)"
proof -
  define p where "p = lower_bound (lessThan_StorageContainer rank) (storage h) x"
  define n where "n = length (storage h)"
  from assms(3) have p: "p < n" by (simp add: p_def n_def)
  then have ne: "int p \<noteq> int n" by simp
  have bound: "int p \<le> int (n - 1)" using p by simp
  show ?thesis
  proof (cases "p = n - 1")
    case True
    with p have at_last: "int p = int n - 1" and idx: "nat (int n - 1) = p" by simp_all
    show ?thesis
      unfolding add_update_def Let_def p_def [symmetric] n_def [symmetric]
      using assms(1,2) p ne bound
      by (simp add: lessThan_StorageContainer_def n_def [symmetric] at_last idx)
  next
    case False
    with p have inner: "int p \<noteq> int n - 1" by linarith
    show ?thesis
      unfolding add_update_def Let_def p_def [symmetric] n_def [symmetric]
      using assms(1,2) p ne bound
      by (simp add: lessThan_StorageContainer_def n_def [symmetric] inner)
  qed
qed

text \<open>One report that is not empty keeps the invariant.\<close>

lemma add_keeps_best:
  assumes kept: "keeps_best rank (unat (maxToStore h)) S (storage h)"
    and cap: "0 < unat (maxToStore h)"
    and ne: "\<not> isEmpty x"
  shows "\<exists>h'. add isEmpty rank x h = Returned h'
           \<and> keeps_best rank (unat (maxToStore h)) (insert x S) (storage h')
           \<and> maxToStore h' = maxToStore h
           \<and> reportedInteractions h' = reportedInteractions h + 1"
proof -
  define h1 where "h1 = h\<lparr>reportedInteractions := reportedInteractions h + 1\<rparr>"
  define st where "st = storage h"
  define K where "K = unat (maxToStore h)"
  define p where "p = lower_bound (lessThan_StorageContainer rank) st x"
  have h1: "storage h1 = st" "maxToStore h1 = maxToStore h"
    "reportedInteractions h1 = reportedInteractions h + 1"
    by (simp_all add: h1_def st_def)
  from kept have kept': "keeps_best rank K S st" by (simp add: K_def st_def)
  then have sorted: "sorted_wrt (lessThan_StorageContainer rank) st" and len: "length st \<le> K"
    by (simp_all add: keeps_best_def)
  have p_le: "p \<le> length st"
    and below: "\<And>i. i < p \<Longrightarrow> rank (st ! i) < rank x"
    and above: "\<And>i. p \<le> i \<Longrightarrow> i < length st \<Longrightarrow> rank x \<le> rank (st ! i)"
    unfolding p_def using lower_bound_rank [OF sorted] by blast+
  have dup: "rank x \<in> rank ` set st" if "p < length st" "\<not> rank x < rank (st ! p)"
  proof -
    from above [of p] that have "rank x = rank (st ! p)" by simp
    with that(1) show ?thesis by (metis image_eqI nth_mem)
  qed
  have add_eq: "add isEmpty rank x h =
      (if length st < K then add_update rank x h1
       else if st = [] then Undefined
       else if rank x < rank (last st) then add_update rank x h1
       else Returned h1)"
    using ne by (simp add: add_def Let_def h1_def [symmetric] h1 K_def lessThan_StorageContainer_def)
  show ?thesis
  proof (cases "length st < K")
    case room: True
    then have upd: "add_update rank x h1 =
        (if p = length st \<or> rank x < rank (st ! p)
         then Returned (h1\<lparr>storage := insert_at p x st\<rparr>) else Returned h1)"
      using add_update_room [of h1 rank x] by (simp add: h1 K_def p_def)
    show ?thesis
    proof (cases "p = length st \<or> rank x < rank (st ! p)")
      case True
      have "keeps_best rank K (insert x S) (insert_at p x st)"
        using kept' room below True by (intro keeps_best_room) auto
      with True room upd show ?thesis
        unfolding add_eq by (simp add: h1 K_def)
    next
      case False
      with p_le have "p < length st" "\<not> rank x < rank (st ! p)" by simp_all
      from keeps_best_duplicate [OF kept' dup [OF this]] False room upd
      show ?thesis unfolding add_eq by (simp add: h1 K_def)
    qed
  next
    case False
    with len have full: "length st = K" by simp
    with cap have nonempty: "st \<noteq> []" by (auto simp: K_def)
    show ?thesis
    proof (cases "rank x < rank (last st)")
      case better: True
      have p_lt: "p < length st"
      proof (rule ccontr)
        assume "\<not> p < length st"
        with nonempty have "length st - 1 < p" by (cases st) simp_all
        from below [OF this] nonempty better show False by (simp add: last_conv_nth)
      qed
      have upd: "add_update rank x h1 =
          (if rank x < rank (st ! p)
           then Returned (h1\<lparr>storage := insert_at p x (butlast st)\<rparr>) else Returned h1)"
        using add_update_full [of h1 rank x] full nonempty p_lt by (simp add: h1 K_def p_def)
      show ?thesis
      proof (cases "rank x < rank (st ! p)")
        case True
        have "keeps_best rank K (insert x S) (insert_at p x (butlast st))"
          using kept' full nonempty better below True p_lt by (intro keeps_best_evict) auto
        with True better False nonempty upd show ?thesis
          unfolding add_eq by (simp add: h1 K_def)
      next
        case False
        from keeps_best_duplicate [OF kept' dup [OF p_lt False]] False better nonempty upd
          \<open>\<not> length st < K\<close>
        show ?thesis unfolding add_eq by (simp add: h1 K_def)
      qed
    next
      case worse: False
      from keeps_best_worse [OF kept' full nonempty worse] worse False nonempty
      show ?thesis unfolding add_eq by (simp add: h1 K_def)
    qed
  qed
qed


lemma add_all_keeps_best:
  assumes "keeps_best rank (unat (maxToStore h)) S (storage h)"
    and "0 < unat (maxToStore h)"
  shows "\<exists>h'. add_all isEmpty rank xs h = Returned h'
           \<and> keeps_best rank (unat (maxToStore h)) (S \<union> {x \<in> set xs. \<not> isEmpty x}) (storage h')
           \<and> maxToStore h' = maxToStore h
           \<and> reportedInteractions h' = reportedInteractions h + of_nat (length xs)"
  using assms
proof (induction xs arbitrary: h S)
  case Nil
  then show ?case by simp
next
  case (Cons x xs)
  show ?case
  proof (cases "isEmpty x")
    case True
    define h1 where "h1 = h\<lparr>reportedInteractions := reportedInteractions h + 1\<rparr>"
    have step: "add isEmpty rank x h = Returned h1"
      using True by (simp add: add_def h1_def)
    have same: "storage h1 = storage h" "maxToStore h1 = maxToStore h"
      "reportedInteractions h1 = reportedInteractions h + 1"
      by (simp_all add: h1_def)
    from Cons.prems have "keeps_best rank (unat (maxToStore h1)) S (storage h1)"
      and "0 < unat (maxToStore h1)"
      by (simp_all add: same)
    from Cons.IH [OF this] obtain h' where rest: "add_all isEmpty rank xs h1 = Returned h'"
      and kept: "keeps_best rank (unat (maxToStore h1)) (S \<union> {x \<in> set xs. \<not> isEmpty x}) (storage h')"
      and cap: "maxToStore h' = maxToStore h1"
      and cnt: "reportedInteractions h' = reportedInteractions h1 + of_nat (length xs)"
      by blast
    have sets: "S \<union> {y \<in> set (x # xs). \<not> isEmpty y} = S \<union> {y \<in> set xs. \<not> isEmpty y}"
      using True by auto
    from rest kept cap cnt show ?thesis
      unfolding sets by (simp add: step same)
  next
    case False
    from add_keeps_best [of rank h S isEmpty x, OF Cons.prems(1) Cons.prems(2) False]
    obtain h1 where step: "add isEmpty rank x h = Returned h1"
      and kept1: "keeps_best rank (unat (maxToStore h)) (insert x S) (storage h1)"
      and cap1: "maxToStore h1 = maxToStore h"
      and cnt1: "reportedInteractions h1 = reportedInteractions h + 1"
      by blast
    from kept1 Cons.prems(2) have "keeps_best rank (unat (maxToStore h1)) (insert x S) (storage h1)"
      and "0 < unat (maxToStore h1)"
      by (simp_all add: cap1)
    from Cons.IH [OF this] obtain h' where rest: "add_all isEmpty rank xs h1 = Returned h'"
      and kept: "keeps_best rank (unat (maxToStore h1)) (insert x S \<union> {x \<in> set xs. \<not> isEmpty x})
                   (storage h')"
      and cap: "maxToStore h' = maxToStore h1"
      and cnt: "reportedInteractions h' = reportedInteractions h1 + of_nat (length xs)"
      by blast
    have sets: "S \<union> {y \<in> set (x # xs). \<not> isEmpty y} = insert x S \<union> {y \<in> set xs. \<not> isEmpty y}"
      using False by auto
    from rest kept cap cnt show ?thesis
      unfolding sets by (simp add: step cap1 cnt1)
  qed
qed

text \<open>
  A storage that satisfies the invariant holds the ranks of the best \<open>K\<close> of the
  distinct ranks seen, in ascending order.
\<close>

lemma keeps_best_take:
  assumes fin: "finite S" and kept: "keeps_best rank K S st"
  shows "map rank st = take K (sorted_list_of_set (rank ` S))"
proof -
  define ks where "ks = map rank st"
  define R where "R = rank ` S - set ks"
  from kept have sorted: "sorted_wrt (lessThan_StorageContainer rank) st"
    and len: "length st \<le> K" and sub: "set st \<subseteq> S"
    and all: "\<forall>y \<in> S. rank y \<in> rank ` set st
                \<or> (length st = K \<and> (\<forall>x \<in> set st. rank x < rank y))"
    by (simp_all add: keeps_best_def)
  have "sorted_wrt (<) ks"
    using sorted unfolding ks_def sorted_wrt_map lessThan_StorageContainer_def .
  then have ks: "sorted ks" "distinct ks" by (simp_all add: strict_sorted_iff)
  have finR: "finite R" using fin by (simp add: R_def)
  have beyond: "length st = K \<and> (\<forall>k \<in> set ks. k < r)" if "r \<in> R" for r
  proof -
    from that obtain y where y: "y \<in> S" "r = rank y" "rank y \<notin> rank ` set st"
      by (auto simp: R_def ks_def)
    with all show ?thesis by (auto simp: ks_def)
  qed
  have "sorted (ks @ sorted_list_of_set R)"
    using ks(1) finR beyond by (auto simp: sorted_append less_imp_le)
  moreover have "distinct (ks @ sorted_list_of_set R)"
    using ks(2) finR by (auto simp: R_def)
  moreover have "set (ks @ sorted_list_of_set R) = rank ` S"
    using finR sub by (auto simp: R_def ks_def)
  ultimately have whole: "sorted_list_of_set (rank ` S) = ks @ sorted_list_of_set R"
    by (metis sorted_list_of_set.idem_if_sorted_distinct)
  show ?thesis
  proof (cases "R = {}")
    case True
    with whole len show ?thesis by (simp add: ks_def)
  next
    case False
    then obtain r where "r \<in> R" by blast
    from beyond [OF this] have "length ks = K" by (simp add: ks_def)
    with whole show ?thesis by (simp add: ks_def)
  qed
qed

text \<open>
  A handler of capacity \<open>K \<ge> 1\<close>, told of any finite sequence of interactions by one
  thread: every call returns; afterwards the storage holds interactions that were
  reported and are not empty, their ranks are the \<open>min K n\<close> best of the \<open>n\<close>
  distinct ranks reported, in ascending order, and the count is the number of reports.
\<close>

lemma add_all_retains_best:
  assumes "0 < unat K"
  shows "\<exists>h'. add_all isEmpty rank xs (OutputHandlerInteractionList_new K) = Returned h'
           \<and> map rank (storage h')
               = take (unat K) (sorted_list_of_set (rank ` {x \<in> set xs. \<not> isEmpty x}))
           \<and> set (storage h') \<subseteq> {x \<in> set xs. \<not> isEmpty x}
           \<and> length (storage h') = min (unat K) (card (rank ` {x \<in> set xs. \<not> isEmpty x}))
           \<and> reportedInteractions h' = of_nat (length xs)"
proof -
  let ?h = "OutputHandlerInteractionList_new K :: 'a OutputHandlerInteractionList"
  let ?S = "{x \<in> set xs. \<not> isEmpty x}"
  have start: "keeps_best rank (unat (maxToStore ?h)) {} (storage ?h)"
    by (simp add: keeps_best_def OutputHandlerInteractionList_new_def)
  have cap: "0 < unat (maxToStore ?h)"
    using assms by (simp add: OutputHandlerInteractionList_new_def)
  from add_all_keeps_best [OF start cap, of isEmpty xs]
  obtain h' where run: "add_all isEmpty rank xs ?h = Returned h'"
    and kept: "keeps_best rank (unat K) ?S (storage h')"
    and cnt: "reportedInteractions h' = of_nat (length xs)"
    by (auto simp: OutputHandlerInteractionList_new_def)
  have fin: "finite ?S" by simp
  from keeps_best_take [OF fin kept]
  have ranks: "map rank (storage h') = take (unat K) (sorted_list_of_set (rank ` ?S))" .
  have "length (map rank (storage h')) = min (unat K) (card (rank ` ?S))"
    unfolding ranks by (simp add: min.commute)
  then have size: "length (storage h') = min (unat K) (card (rank ` ?S))" by simp
  from kept have "set (storage h') \<subseteq> ?S" by (simp add: keeps_best_def)
  with run ranks size cnt show ?thesis by blast
qed

text \<open>
  Capacity 3 and five interactions of distinct energies, then one whose energy is already
  stored: the three of lowest energy are kept, in ascending order, and the sixth report
  changes the count only.
\<close>

lemma add_all_capacity_3_example:
  "add_all (\<lambda>x. snd x = []) fst
     [(- 5 :: int, [(0 :: nat, 0 :: nat)]), (- 3, [(1, 1)]), (- 9, [(2, 2)]), (- 1, [(3, 3)]),
      (- 7, [(4, 4)])]
     (OutputHandlerInteractionList_new 3)
   = Returned \<lparr>storage = [(- 9, [(2, 2)]), (- 7, [(4, 4)]), (- 5, [(0, 0)])],
               maxToStore = 3, reportedInteractions = 5\<rparr>"
  "add (\<lambda>x. snd x = []) fst (- 7 :: int, [(6 :: nat, 6 :: nat)])
     \<lparr>storage = [(- 9, [(2, 2)]), (- 7, [(4, 4)]), (- 5, [(0, 0)])],
      maxToStore = 3, reportedInteractions = 5\<rparr>
   = Returned \<lparr>storage = [(- 9, [(2, 2)]), (- 7, [(4, 4)]), (- 5, [(0, 0)])],
               maxToStore = 3, reportedInteractions = 6\<rparr>"
  by code_simp+

text \<open>
  Claim C4, on the code. For a capacity of at least 1 the claim holds, as
  \<open>add_all_retains_best\<close> shows. A handler of capacity 0 that is told of one
  interaction that is not empty: the storage is empty and not below the capacity, so the
  source compares the interaction with the last stored one, which does not exist.
\<close>

theorem add_to_handler_of_capacity_0:
  "add (\<lambda>x. snd x = []) fst (- 5 :: real, [(0 :: nat, 0 :: nat)])
     (OutputHandlerInteractionList_new 0) = Undefined"
  by (simp add: add_def OutputHandlerInteractionList_new_def)

end
